theory Spec2Isabelle
  imports Main "HOL-Library.Char_ord" "HOL-Library.List_Lexorder"
begin

section \<open>Python string primitives used by \<open>generate_pdf.py\<close>\<close>

text \<open>
  A Python \<open>str\<close> is a sequence of code points. The model uses \<^typ>\<open>string\<close>, whose
  characters are the code points 0..255; on that range \<open>str.isspace\<close>, the regular
  expression class \<open>\d\<close> and \<open>str.lower\<close> are the finite tables written out below.
\<close>

definition bt :: char where
  "bt = CHR 0x60"

definition nl :: char where
  "nl = CHR 0x0A"

definition lt :: char where
  "lt = CHR ''<''"

definition gt :: char where
  "gt = CHR ''>''"

text \<open>\<open>str.isspace\<close> on one character: what \<open>str.strip()\<close> removes.\<close>

definition is_space :: "char \<Rightarrow> bool" where
  "is_space c \<longleftrightarrow> c \<in> set [CHR 0x09, CHR 0x0A, CHR 0x0B, CHR 0x0C, CHR 0x0D,
      CHR 0x1C, CHR 0x1D, CHR 0x1E, CHR 0x1F, CHR 0x20, CHR 0x85, CHR 0xA0]"

text \<open>The class \<open>\d\<close> of a \<open>str\<close> pattern.\<close>

definition is_digit :: "char \<Rightarrow> bool" where
  "is_digit c \<longleftrightarrow> c \<in> set ''0123456789''"

text \<open>The class \<open>[A-Z]\<close>.\<close>

definition is_upper :: "char \<Rightarrow> bool" where
  "is_upper c \<longleftrightarrow> c \<in> set ''ABCDEFGHIJKLMNOPQRSTUVWXYZ''"

definition strip :: "string \<Rightarrow> string" where
  "strip s = rev (dropWhile is_space (rev (dropWhile is_space s)))"

definition startswith :: "string \<Rightarrow> string \<Rightarrow> bool" where
  "startswith s p \<longleftrightarrow> take (length p) s = p"

definition endswith :: "string \<Rightarrow> string \<Rightarrow> bool" where
  "endswith s p \<longleftrightarrow> startswith (rev s) (rev p)"

text \<open>\<open>s.split("\n")\<close>: never empty, one more piece than there are newlines.\<close>

fun split_nl :: "string \<Rightarrow> string list" where
  "split_nl [] = [[]]"
| "split_nl (c # cs) =
     (if c = nl then [] # split_nl cs
      else (case split_nl cs of
              [] \<Rightarrow> [[c]]
            | x # xs \<Rightarrow> (c # x) # xs))"

text \<open>\<open>"\n".join(xs)\<close>.\<close>

fun join_nl :: "string list \<Rightarrow> string" where
  "join_nl [] = []"
| "join_nl [x] = x"
| "join_nl (x # y # ys) = x @ nl # join_nl (y # ys)"

section \<open>The two regular expressions of \<open>preprocess_markdown\<close>\<close>

text \<open>
  The pattern \<open>`[^`]+`\<close> tried at the head of a string: a backtick, a non-empty run of
  characters other than the backtick, a backtick. The run cannot be cut short (the next
  character would not be a backtick), so there is at most one way to match. The result is
  the matched text and what follows it.
\<close>

definition match_span :: "string \<Rightarrow> (string \<times> string) option" where
  "match_span s =
     (case s of
        [] \<Rightarrow> None
      | c # cs \<Rightarrow>
          if c = bt then
            (let body = takeWhile (\<lambda>x. x \<noteq> bt) cs;
                 rest = dropWhile (\<lambda>x. x \<noteq> bt) cs
             in if body \<noteq> [] \<and> rest \<noteq> [] then Some (c # body @ [bt], tl rest) else None)
          else None)"

lemma match_span_shorter [termination_simp]:
  "match_span s = Some (m, rest) \<Longrightarrow> length rest < length s"
proof -
  assume a: "match_span s = Some (m, rest)"
  then obtain c cs where s: "s = c # cs"
    by (cases s) (auto simp: match_span_def)
  from a s have "rest = tl (dropWhile (\<lambda>x. x \<noteq> bt) cs)"
    by (auto simp: match_span_def Let_def split: if_splits)
  moreover have "length (dropWhile (\<lambda>x. x \<noteq> bt) cs) \<le> length cs"
    by (rule length_dropWhile_le)
  ultimately show ?thesis using s by simp
qed

text \<open>
  \<open>re.split(r"(`[^`]+`)", line)\<close>: the pattern has one capturing group, so the result
  alternates the text between matches with the matches themselves, starting and ending
  with a (possibly empty) piece of text. Matches are found left to right and do not
  overlap.
\<close>

function re_split_spans :: "string \<Rightarrow> string list" where
  "re_split_spans [] = [[]]"
| "re_split_spans (c # cs) =
     (case match_span (c # cs) of
        Some (m, rest) \<Rightarrow> [] # m # re_split_spans rest
      | None \<Rightarrow>
          (case re_split_spans cs of
             [] \<Rightarrow> [[c]]
           | p # ps \<Rightarrow> (c # p) # ps))"
  by pat_completeness auto
termination
  by (relation "measure length") (auto dest: match_span_shorter)

text \<open>
  The pattern \<open><([A-Z][^>]*)>\<close> tried at the head of a string: the result is group 1
  and what follows the match. The greedy run \<open>[^>]*\<close> stops at the first \<open>>\<close>.
\<close>

definition match_generic :: "string \<Rightarrow> (string \<times> string) option" where
  "match_generic s =
     (case s of
        c # u # cs \<Rightarrow>
          if c = lt \<and> is_upper u then
            (let body = takeWhile (\<lambda>x. x \<noteq> gt) cs;
                 rest = dropWhile (\<lambda>x. x \<noteq> gt) cs
             in if rest \<noteq> [] then Some (u # body, tl rest) else None)
          else None
      | _ \<Rightarrow> None)"

lemma match_generic_shorter [termination_simp]:
  "match_generic s = Some (g, rest) \<Longrightarrow> length rest < length s"
proof -
  assume a: "match_generic s = Some (g, rest)"
  then obtain c u cs where s: "s = c # u # cs"
    by (cases s; cases "tl s") (auto simp: match_generic_def)
  from a s have "rest = tl (dropWhile (\<lambda>x. x \<noteq> gt) cs)"
    by (auto simp: match_generic_def Let_def split: if_splits)
  moreover have "length (dropWhile (\<lambda>x. x \<noteq> gt) cs) \<le> length cs"
    by (rule length_dropWhile_le)
  ultimately show ?thesis using s by simp
qed

text \<open>
  \<open>re.sub(r"<([A-Z][^>]*)>", r"&lt;\1&gt;", part)\<close>: every match, found left to right
  without overlap, is replaced; the text between matches is copied.
\<close>

function re_sub_generics :: "string \<Rightarrow> string" where
  "re_sub_generics [] = []"
| "re_sub_generics (c # cs) =
     (case match_generic (c # cs) of
        Some (g, rest) \<Rightarrow> ''&lt;'' @ g @ ''&gt;'' @ re_sub_generics rest
      | None \<Rightarrow> c # re_sub_generics cs)"
  by pat_completeness auto
termination
  by (relation "measure length") (auto dest: match_generic_shorter)

text \<open>\<open>re.match(r"^\d+\. ", line)\<close>, as a truth value.\<close>

definition match_numbered :: "string \<Rightarrow> bool" where
  "match_numbered s \<longleftrightarrow>
     takeWhile is_digit s \<noteq> [] \<and> startswith (dropWhile is_digit s) ''. ''"

section \<open>\<open>preprocess_markdown\<close>\<close>

text \<open>Fix 1, the body of \<open>for part in parts\<close>.\<close>

definition escape_part :: "string \<Rightarrow> string" where
  "escape_part part =
     (if startswith part [bt] \<and> endswith part [bt] then part
      else re_sub_generics part)"

text \<open>Fix 1 on a whole line: split, treat each part, join.\<close>

definition fix_generics :: "string \<Rightarrow> string" where
  "fix_generics line = concat (map escape_part (re_split_spans line))"

text \<open>The condition on the current line in Fix 2.\<close>

definition is_list_item :: "string \<Rightarrow> bool" where
  "is_list_item line \<longleftrightarrow> startswith line ''- '' \<or> match_numbered line"

text \<open>The condition on \<open>prev_line\<close> in Fix 2.\<close>

definition needs_blank :: "string \<Rightarrow> bool" where
  "needs_blank prev_line \<longleftrightarrow>
     strip prev_line \<noteq> [] \<and> \<not> startswith prev_line ''- ''
     \<and> \<not> match_numbered prev_line \<and> \<not> startswith prev_line ''#''"

text \<open>The test that toggles \<open>in_code_block\<close>.\<close>

definition is_fence :: "string \<Rightarrow> bool" where
  "is_fence line \<longleftrightarrow> startswith (strip line) [bt, bt, bt]"

record pstate =
  in_code_block :: bool
  processed_lines :: "string list"

text \<open>One iteration of \<open>for i, line in enumerate(lines)\<close>.\<close>

definition loop_body :: "nat \<Rightarrow> string \<Rightarrow> pstate \<Rightarrow> pstate" where
  "loop_body i line st =
     (if is_fence line then
        st\<lparr>in_code_block := \<not> in_code_block st,
           processed_lines := processed_lines st @ [line]\<rparr>
      else if \<not> in_code_block st then
        (let line' = fix_generics line;
             st' = (if 0 < i \<and> is_list_item line' then
                      (let prev_line = (if processed_lines st \<noteq> []
                                        then last (processed_lines st) else [])
                       in if needs_blank prev_line
                          then st\<lparr>processed_lines := processed_lines st @ [[]]\<rparr>
                          else st)
                    else st)
         in st'\<lparr>processed_lines := processed_lines st' @ [line']\<rparr>)
      else st\<lparr>processed_lines := processed_lines st @ [line]\<rparr>)"

fun loop :: "nat \<Rightarrow> string list \<Rightarrow> pstate \<Rightarrow> pstate" where
  "loop i [] st = st"
| "loop i (line # lines) st = loop (Suc i) lines (loop_body i line st)"

definition init_state :: pstate where
  "init_state = \<lparr>in_code_block = False, processed_lines = []\<rparr>"

definition preprocess_markdown :: "string \<Rightarrow> string" where
  "preprocess_markdown md_content =
     join_nl (processed_lines (loop 0 (split_nl md_content) init_state))"

section \<open>Paths and the file system\<close>

text \<open>
  The file system is a tree whose root is the current directory; a \<open>pathlib.Path\<close> is a
  relative path, the list of its components below that root (\<open>Path("docs/a.md")\<close> is
  \<open>[''docs'', ''a.md'']\<close>, \<open>Path(".")\<close> is \<open>[]\<close>). Symbolic links, permissions and file
  contents are not part of the tree. The names in one directory are meant to be pairwise
  different.
\<close>

type_synonym path = "string list"

datatype node = File | Dir "(string \<times> node) list"

fun lookup :: "node \<Rightarrow> path \<Rightarrow> node option" where
  "lookup n [] = Some n"
| "lookup File (x # xs) = None"
| "lookup (Dir es) (x # xs) =
     (case map_of es x of
        None \<Rightarrow> None
      | Some n \<Rightarrow> lookup n xs)"


definition is_file :: "node \<Rightarrow> path \<Rightarrow> bool" where
  "is_file fs p \<longleftrightarrow> lookup fs p = Some File"

definition is_dir :: "node \<Rightarrow> path \<Rightarrow> bool" where
  "is_dir fs p \<longleftrightarrow> (case lookup fs p of Some (Dir es) \<Rightarrow> True | _ \<Rightarrow> False)"

definition scandir :: "node \<Rightarrow> path \<Rightarrow> string list" where
  "scandir fs p = (case lookup fs p of Some (Dir es) \<Rightarrow> map fst es | _ \<Rightarrow> [])"

text \<open>
  \<open>PurePath.name\<close>, \<open>suffix\<close> and \<open>stem\<close>: with \<open>i = name.rfind('.')\<close>, the name has a
  suffix when \<open>0 < i < len(name) - 1\<close>; the suffix is \<open>name[i:]\<close>, the stem \<open>name[:i]\<close>.
\<close>

definition name :: "path \<Rightarrow> string" where
  "name p = (if p = [] then [] else last p)"

definition has_suffix :: "string \<Rightarrow> bool" where
  "has_suffix n \<longleftrightarrow>
     (let ext = takeWhile (\<lambda>c. c \<noteq> CHR ''.'') (rev n)
      in CHR ''.'' \<in> set n \<and> ext \<noteq> [] \<and> length ext + 1 < length n)"

definition suffix :: "path \<Rightarrow> string" where
  "suffix p =
     (let n = name p
      in if has_suffix n then CHR ''.'' # rev (takeWhile (\<lambda>c. c \<noteq> CHR ''.'') (rev n)) else [])"


text \<open>\<open>str.lower\<close> on the code points 0..255.\<close>

definition lower_char :: "char \<Rightarrow> char" where
  "lower_char c =
     (let n = (of_char c :: nat)
      in if (65 \<le> n \<and> n \<le> 90) \<or> (192 \<le> n \<and> n \<le> 222 \<and> n \<noteq> 215)
         then char_of (n + 32) else c)"

definition lower :: "string \<Rightarrow> string" where
  "lower s = map lower_char s"

text \<open>
  \<open>fnmatch\<close> of a name against a pattern, case-sensitive as on POSIX, for patterns made
  of \<open>*\<close> and literal characters (the patterns of this program are \<open>*.md\<close> and \<open>**\<close>).
\<close>

fun fnmatch :: "string \<Rightarrow> string \<Rightarrow> bool" where
  "fnmatch [] [] \<longleftrightarrow> True"
| "fnmatch (c # cs) [] \<longleftrightarrow> False"
| "fnmatch [] (p # ps) \<longleftrightarrow> p = CHR ''*'' \<and> fnmatch [] ps"
| "fnmatch (c # cs) (p # ps) \<longleftrightarrow>
     (if p = CHR ''*'' then fnmatch (c # cs) ps \<or> fnmatch cs (p # ps)
      else c = p \<and> fnmatch cs ps)"

text \<open>
  \<open>Path.glob\<close>. The pattern is given as its components (\<open>**/*.md\<close> is \<open>**\<close>, \<open>*.md\<close>).
  \<open>iterate_directories\<close> lists a directory and, depth first, the directories below it,
  as paths relative to it. A component \<open>**\<close> runs the rest of the pattern from each of
  them and drops paths already yielded; any other component keeps the entries whose name
  matches, directories only when more components follow. A path that is not a directory
  yields nothing.
\<close>

fun iterate_directories :: "node \<Rightarrow> path list" where
  "iterate_directories File = []"
| "iterate_directories (Dir es) =
     [] # concat (map (\<lambda>e. map ((#) (fst e)) (iterate_directories (snd e))) es)"

fun select_from :: "node \<Rightarrow> string list \<Rightarrow> path \<Rightarrow> path list" where
  "select_from fs [] p = [p]"
| "select_from fs (pat # pats) p =
     (if pat = ''**'' then
        (case lookup fs p of
           None \<Rightarrow> []
         | Some n \<Rightarrow>
             remdups (concat (map (\<lambda>d. select_from fs pats (p @ d)) (iterate_directories n))))
      else
        concat (map (\<lambda>entry. select_from fs pats (p @ [entry]))
          (filter (\<lambda>entry. (pats = [] \<or> is_dir fs (p @ [entry])) \<and> fnmatch entry pat)
             (scandir fs p))))"

definition glob :: "node \<Rightarrow> path \<Rightarrow> string list \<Rightarrow> path list" where
  "glob fs p pattern = (if is_dir fs p then select_from fs pattern p else [])"

section \<open>\<open>get_md_files\<close>\<close>

text \<open>
  \<open>sorted\<close> compares \<open>Path\<close> objects by their lists of components, each component by
  code points: the order of \<^typ>\<open>string list\<close> used by \<^const>\<open>sort\<close> here.
\<close>

definition get_md_files :: "node \<Rightarrow> path \<Rightarrow> bool \<Rightarrow> path list" where
  "get_md_files fs path recursive =
     (if is_file fs path then
        (if lower (suffix path) = ''.md'' then [path] else [])
      else
        (let pattern = (if recursive then [''**'', ''*.md''] else [''*.md'']);
             md_files = sort (glob fs path pattern)
         in filter (is_file fs) md_files))"

section \<open>\<open>generate_epub\<close> and \<open>generate_pdf\<close>\<close>




text \<open>\<open>str(path)\<close> and \<open>str(n)\<close>, for the printed messages.\<close>

fun path_str :: "path \<Rightarrow> string" where
  "path_str [] = ''.''"
| "path_str [x] = x"
| "path_str (x # y # ys) = x @ CHR ''/'' # path_str (y # ys)"









section \<open>Notions used to state the properties\<close>

text \<open>The state after the loop has consumed the lines \<open>lines\<close>, and what it has emitted.\<close>

definition run :: "string list \<Rightarrow> pstate" where
  "run lines = loop 0 lines init_state"

definition out_lines :: "string list \<Rightarrow> string list" where
  "out_lines lines = processed_lines (run lines)"

definition fence_count :: "string list \<Rightarrow> nat" where
  "fence_count lines = length (filter is_fence lines)"

text \<open>The lines one iteration appends to \<open>processed_lines\<close>.\<close>

definition emitted :: "nat \<Rightarrow> string \<Rightarrow> pstate \<Rightarrow> string list" where
  "emitted i line st =
     (if is_fence line \<or> in_code_block st then [line]
      else if 0 < i \<and> is_list_item (fix_generics line) \<and> needs_blank (last (processed_lines st))
      then [[], fix_generics line]
      else [fix_generics line])"

text \<open>
  \<open>escaped_from l x\<close>: \<open>x\<close> is \<open>l\<close> read from left to right, where each \<open><\<close> is either copied
  or written \<open>&lt;\<close>, each \<open>>\<close> is either copied or written \<open>&gt;\<close>, and every other
  character is copied. Writing \<open><\<close> and \<open>>\<close> back for these entities recovers \<open>l\<close>.
\<close>

fun escaped_from :: "string \<Rightarrow> string \<Rightarrow> bool" where
  "escaped_from [] x \<longleftrightarrow> x = []"
| "escaped_from (c # cs) x \<longleftrightarrow>
     (case x of [] \<Rightarrow> False | d # ds \<Rightarrow> d = c \<and> escaped_from cs ds)
     \<or> (c = lt \<and> startswith x ''&lt;'' \<and> escaped_from cs (drop 4 x))
     \<or> (c = gt \<and> startswith x ''&gt;'' \<and> escaped_from cs (drop 4 x))"

text \<open>
  \<open>interleaved ls outs\<close>: \<open>outs\<close> is \<open>ls\<close> in order, each line as it is or with some of
  its angle brackets escaped, with at most one empty line put in front of each.
\<close>

fun interleaved :: "string list \<Rightarrow> string list \<Rightarrow> bool" where
  "interleaved [] outs \<longleftrightarrow> outs = []"
| "interleaved (l # ls) outs \<longleftrightarrow>
     (case outs of
        [] \<Rightarrow> False
      | x # xs \<Rightarrow>
          (escaped_from l x \<and> interleaved ls xs)
          \<or> (x = [] \<and> (case xs of
                          [] \<Rightarrow> False
                        | y # ys \<Rightarrow> escaped_from l y \<and> interleaved ls ys)))"

text \<open>
  \<open>esc_rel s t\<close>: \<open>t\<close> is \<open>s\<close> where some \<open><\<close> became \<open>&lt;\<close> and some \<open>>\<close> became
  \<open>&gt;\<close>, everything else being copied.
\<close>

inductive esc_rel :: "string \<Rightarrow> string \<Rightarrow> bool" where
  esc_Nil: "esc_rel [] []"
| esc_Keep: "esc_rel s t \<Longrightarrow> esc_rel (c # s) (c # t)"
| esc_Lt: "esc_rel s t \<Longrightarrow> esc_rel (lt # s) (''&lt;'' @ t)"
| esc_Gt: "esc_rel s t \<Longrightarrow> esc_rel (gt # s) (''&gt;'' @ t)"


text \<open>\<open>is_span m\<close>: \<open>m\<close> is exactly one match of the pattern \<open>`[^`]+`\<close>.\<close>

definition is_span :: "string \<Rightarrow> bool" where
  "is_span m \<longleftrightarrow> match_span m = Some (m, [])"

text \<open>
  The shapes of the text pieces that \<open>re.split\<close> returns: before a match, text without
  backticks followed by a run of backticks; after the last match, text in which no
  character other than a backtick stands between two backticks.
\<close>

definition pre_span :: "string \<Rightarrow> bool" where
  "pre_span t \<longleftrightarrow> list_all (\<lambda>c. c = bt) (dropWhile (\<lambda>c. c \<noteq> bt) t)"

definition no_span :: "string \<Rightarrow> bool" where
  "no_span t \<longleftrightarrow> bt \<notin> set (dropWhile (\<lambda>c. c = bt) (dropWhile (\<lambda>c. c \<noteq> bt) t))"

text \<open>A list of parts as \<open>re.split\<close> returns them: text, match, text, ..., text.\<close>

fun wf_parts :: "string list \<Rightarrow> bool" where
  "wf_parts [] \<longleftrightarrow> False"
| "wf_parts [t] \<longleftrightarrow> no_span t"
| "wf_parts (t # m # qs) \<longleftrightarrow> pre_span t \<and> is_span m \<and> wf_parts qs"

text \<open>The parts of a line that Fix 1 hands to \<open>re.sub\<close>.\<close>

definition escaped_texts :: "string \<Rightarrow> string list" where
  "escaped_texts line =
     filter (\<lambda>part. \<not> (startswith part [bt] \<and> endswith part [bt])) (re_split_spans line)"

text \<open>
  The lines that go through Fix 1 and Fix 2: those that are not fence markers and are
  read while \<open>in_code_block\<close> is false. The flag \<open>ic\<close> is the value of \<open>in_code_block\<close>
  before the first line.
\<close>

fun outside_code :: "bool \<Rightarrow> string list \<Rightarrow> string list" where
  "outside_code ic [] = []"
| "outside_code ic (l # ls) =
     (if is_fence l then outside_code (\<not> ic) ls
      else if ic then outside_code ic ls
      else l # outside_code ic ls)"

text \<open>No \<open><\<close> directly followed by an uppercase letter.\<close>

fun no_open :: "string \<Rightarrow> bool" where
  "no_open [] \<longleftrightarrow> True"
| "no_open [c] \<longleftrightarrow> True"
| "no_open (c # u # cs) \<longleftrightarrow> \<not> (c = lt \<and> is_upper u) \<and> no_open (u # cs)"

text \<open>
  No generic inside a generic: wherever the pattern \<open><([A-Z][^>]*)>\<close> matches, at any
  position of the text, the content between its \<open><\<close> and its \<open>>\<close> holds no \<open><\<close>
  directly followed by an uppercase letter.
\<close>

fun no_nested_generic :: "string \<Rightarrow> bool" where
  "no_nested_generic [] \<longleftrightarrow> True"
| "no_nested_generic (c # cs) \<longleftrightarrow>
     (case match_generic (c # cs) of None \<Rightarrow> True | Some (g, rest) \<Rightarrow> no_open g)
     \<and> no_nested_generic cs"

text \<open>
  \<open>closed_before a\<close>: every \<open><\<close> of \<open>a\<close> that is directly followed by an uppercase
  letter has a \<open>>\<close> after it in \<open>a\<close>. A match of the pattern that starts in \<open>a\<close> then
  ends in \<open>a\<close>, so that what comes after \<open>a\<close> does not begin inside it.
\<close>

fun closed_before :: "string \<Rightarrow> bool" where
  "closed_before [] \<longleftrightarrow> True"
| "closed_before [c] \<longleftrightarrow> True"
| "closed_before (c # u # cs) \<longleftrightarrow>
     (c = lt \<and> is_upper u \<longrightarrow> gt \<in> set cs) \<and> closed_before (u # cs)"

text \<open>Python's \<open>p in s\<close> on strings.\<close>

fun contains :: "string \<Rightarrow> string \<Rightarrow> bool" where
  "contains [] p \<longleftrightarrow> p = []"
| "contains (c # cs) p \<longleftrightarrow> startswith (c # cs) p \<or> contains cs p"


text \<open>
  \<open>file_on_path fs p\<close>: going down from the root along \<open>p\<close> one meets a regular file,
  which may be \<open>p\<close> itself.
\<close>

fun file_on_path :: "node \<Rightarrow> path \<Rightarrow> bool" where
  "file_on_path File p \<longleftrightarrow> True"
| "file_on_path (Dir es) [] \<longleftrightarrow> False"
| "file_on_path (Dir es) (x # xs) \<longleftrightarrow>
     (case map_of es x of None \<Rightarrow> False | Some n \<Rightarrow> file_on_path n xs)"

text \<open>A small file system for the examples.\<close>

definition docs_fs :: node where
  "docs_fs = Dir [(''docs'', Dir [(''intro.md'', File), (''README.MD'', File), (''notes.txt'', File),
      (''ch-1.md'', File), (''ch'', Dir [(''x.md'', File)])])]"



section \<open>Lines, splitting and joining\<close>

lemma split_nl_nonempty: "split_nl s \<noteq> []"
  by (induction s) (auto split: list.splits)

lemma split_nl_no_nl: "x \<in> set (split_nl s) \<Longrightarrow> nl \<notin> set x"
proof (induction s arbitrary: x)
  case Nil
  then show ?case by simp
next
  case (Cons c cs)
  show ?case
  proof (cases "c = nl")
    case True
    with Cons show ?thesis by auto
  next
    case False
    obtain y ys where y: "split_nl cs = y # ys"
      using split_nl_nonempty[of cs] by (cases "split_nl cs") auto
    with Cons False show ?thesis by auto
  qed
qed

lemma split_nl_append_nl:
  "nl \<notin> set x \<Longrightarrow> split_nl (x @ nl # s) = x # split_nl s"
  by (induction x) (auto split: list.splits)

lemma split_nl_no_nl_id: "nl \<notin> set x \<Longrightarrow> split_nl x = [x]"
  by (induction x) (auto split: list.splits)

lemma split_join_nl:
  "xs \<noteq> [] \<Longrightarrow> \<forall>x\<in>set xs. nl \<notin> set x \<Longrightarrow> split_nl (join_nl xs) = xs"
proof (induction xs rule: join_nl.induct)
  case 1
  then show ?case by simp
next
  case (2 x)
  then show ?case by (simp add: split_nl_no_nl_id)
next
  case (3 x y ys)
  then show ?case by (simp add: split_nl_append_nl)
qed

lemma join_split_nl: "join_nl (split_nl s) = s"
proof (induction s)
  case Nil
  then show ?case by simp
next
  case (Cons c cs)
  obtain y ys where y: "split_nl cs = y # ys"
    using split_nl_nonempty[of cs] by (cases "split_nl cs") auto
  show ?case
  proof (cases "c = nl")
    case True
    with Cons y show ?thesis by simp
  next
    case False
    with Cons y show ?thesis by (cases ys) auto
  qed
qed

lemma loop_append: "loop i (xs @ ys) st = loop (i + length xs) ys (loop i xs st)"
  by (induction xs arbitrary: i st) auto

lemma run_snoc: "run (pre @ [l]) = loop_body (length pre) l (run pre)"
  by (simp add: run_def loop_append)

lemma run_Nil: "run [] = init_state"
  by (simp add: run_def)

lemma in_code_loop_body:
  "in_code_block (loop_body i l st) = (in_code_block st \<noteq> is_fence l)"
  by (auto simp: loop_body_def Let_def)

lemma in_code_run: "in_code_block (run ls) = odd (fence_count ls)"
proof (induction ls rule: rev_induct)
  case Nil
  then show ?case by (simp add: run_Nil init_state_def fence_count_def)
next
  case (snoc l ls)
  then show ?case by (auto simp: run_snoc in_code_loop_body fence_count_def)
qed

lemma processed_loop_body:
  "(processed_lines st = [] \<longleftrightarrow> i = 0) \<Longrightarrow>
   processed_lines (loop_body i l st) = processed_lines st @ emitted i l st"
  by (auto simp: loop_body_def emitted_def Let_def)

lemma out_lines_empty_iff: "out_lines ls = [] \<longleftrightarrow> ls = []"
proof (induction ls rule: rev_induct)
  case Nil
  then show ?case by (simp add: out_lines_def run_Nil init_state_def)
next
  case (snoc l ls)
  then show ?case by (auto simp: out_lines_def run_snoc loop_body_def Let_def)
qed

lemma out_lines_snoc:
  "out_lines (pre @ [l]) = out_lines pre @ emitted (length pre) l (run pre)"
  unfolding out_lines_def run_snoc
  by (rule processed_loop_body) (use out_lines_empty_iff[of pre] in \<open>simp add: out_lines_def\<close>)

lemma out_lines_append_ex: "\<exists>post'. out_lines (pre @ post) = out_lines pre @ post'"
proof (induction post rule: rev_induct)
  case Nil
  then show ?case by simp
next
  case (snoc l post)
  then obtain p where "out_lines (pre @ post) = out_lines pre @ p" by blast
  then show ?case using out_lines_snoc[of "pre @ post" l] by simp
qed

section \<open>What escaping can change\<close>

lemma esc_rel_refl: "esc_rel s s"
  by (induction s) (auto intro: esc_rel.intros)

lemma esc_rel_append: "esc_rel a b \<Longrightarrow> esc_rel c d \<Longrightarrow> esc_rel (a @ c) (b @ d)"
  by (induction rule: esc_rel.induct)
     (auto intro: esc_rel.intros esc_Lt[simplified] esc_Gt[simplified])

lemma match_generic_SomeD:
  assumes "match_generic s = Some (g, rest)"
  shows "\<exists>u body. g = u # body \<and> is_upper u \<and> gt \<notin> set body \<and> s = lt # u # body @ gt # rest"
proof -
  from assms obtain c u cs where s: "s = c # u # cs"
    by (cases s; cases "tl s") (auto simp: match_generic_def)
  let ?body = "takeWhile (\<lambda>x. x \<noteq> gt) cs"
  let ?rest = "dropWhile (\<lambda>x. x \<noteq> gt) cs"
  from assms s have c: "c = lt" "is_upper u" "?rest \<noteq> []" "g = u # ?body" "rest = tl ?rest"
    by (auto simp: match_generic_def Let_def split: if_splits)
  from c(3) have "hd ?rest = gt"
    using hd_dropWhile[of "\<lambda>x. x \<noteq> gt" cs] by auto
  with c(3) have "?rest = gt # tl ?rest" by (cases ?rest) auto
  then have "cs = ?body @ gt # rest"
    using takeWhile_dropWhile_id[of "\<lambda>x. x \<noteq> gt" cs] c(5) by simp
  moreover have "gt \<notin> set ?body"
    by (auto dest: set_takeWhileD)
  ultimately show ?thesis using s c by auto
qed

lemma match_generic_SomeI:
  assumes "is_upper u" "gt \<notin> set body"
  shows "match_generic (lt # u # body @ gt # rest) = Some (u # body, rest)"
proof -
  have "\<And>x. x \<in> set body \<Longrightarrow> x \<noteq> gt" using assms by auto
  then show ?thesis using assms by (simp add: match_generic_def Let_def)
qed

lemma match_generic_not_lt: "c \<noteq> lt \<Longrightarrow> match_generic (c # cs) = None"
  by (cases cs) (auto simp: match_generic_def)

lemma esc_rel_sub: "esc_rel s (re_sub_generics s)"
proof (induction s rule: re_sub_generics.induct)
  case 1
  then show ?case by (simp add: esc_rel.intros)
next
  case (2 c cs)
  show ?case
  proof (cases "match_generic (c # cs)")
    case None
    with 2 show ?thesis by (simp add: esc_rel.intros)
  next
    case (Some a)
    obtain g rest where a: "a = (g, rest)" by (cases a)
    from Some a obtain u body where
      g: "g = u # body" "c # cs = lt # u # body @ gt # rest"
      using match_generic_SomeD[of "c # cs" g rest] by auto
    from 2(2)[OF Some[unfolded a] refl] have ih: "esc_rel rest (re_sub_generics rest)" .
    have "esc_rel (g @ gt # rest) (g @ ''&gt;'' @ re_sub_generics rest)"
      by (rule esc_rel_append[OF esc_rel_refl esc_Gt[OF ih]])
    then have "esc_rel (lt # g @ gt # rest) (''&lt;'' @ g @ ''&gt;'' @ re_sub_generics rest)"
      by (rule esc_Lt)
    with Some a g show ?thesis by simp
  qed
qed

lemma match_span_SomeD:
  assumes "match_span s = Some (m, rest)"
  shows "\<exists>body. body \<noteq> [] \<and> bt \<notin> set body \<and> m = bt # body @ [bt] \<and> s = m @ rest"
proof -
  from assms obtain c cs where s: "s = c # cs"
    by (cases s) (auto simp: match_span_def)
  let ?body = "takeWhile (\<lambda>x. x \<noteq> bt) cs"
  let ?rest = "dropWhile (\<lambda>x. x \<noteq> bt) cs"
  from assms s have c: "c = bt" "?body \<noteq> []" "?rest \<noteq> []" "m = bt # ?body @ [bt]" "rest = tl ?rest"
    by (auto simp: match_span_def Let_def split: if_splits)
  from c(3) have "hd ?rest = bt"
    using hd_dropWhile[of "\<lambda>x. x \<noteq> bt" cs] by auto
  with c(3) have "?rest = bt # tl ?rest" by (cases ?rest) auto
  then have "cs = ?body @ bt # rest"
    using takeWhile_dropWhile_id[of "\<lambda>x. x \<noteq> bt" cs] c(5) by simp
  moreover have "bt \<notin> set ?body"
    by (auto dest: set_takeWhileD)
  ultimately show ?thesis using s c by auto
qed

lemma match_span_SomeI:
  assumes "body \<noteq> []" "bt \<notin> set body"
  shows "match_span (bt # body @ bt # rest) = Some (bt # body @ [bt], rest)"
proof -
  have "\<And>x. x \<in> set body \<Longrightarrow> x \<noteq> bt" using assms by auto
  then show ?thesis using assms by (simp add: match_span_def Let_def)
qed

lemma re_split_spans_nonempty: "re_split_spans s \<noteq> []"
  by (induction s rule: re_split_spans.induct) (auto split: option.splits list.splits)

lemma concat_re_split_spans: "concat (re_split_spans s) = s"
proof (induction s rule: re_split_spans.induct)
  case 1
  then show ?case by simp
next
  case (2 c cs)
  show ?case
  proof (cases "match_span (c # cs)")
    case None
    with 2 show ?thesis by (auto split: list.splits)
  next
    case (Some a)
    obtain m rest where a: "a = (m, rest)" by (cases a)
    from Some a have eq: "c # cs = m @ rest"
      using match_span_SomeD[of "c # cs" m rest] by auto
    have "re_split_spans (c # cs) = [] # m # re_split_spans rest"
      using Some a by simp
    then have "concat (re_split_spans (c # cs)) = m @ rest"
      using 2(2)[OF Some[unfolded a] refl] by simp
    with eq show ?thesis by simp
  qed
qed

lemma esc_rel_escape_part: "esc_rel p (escape_part p)"
  by (simp add: escape_part_def esc_rel_refl esc_rel_sub)

lemma esc_rel_concat_map: "esc_rel (concat ps) (concat (map escape_part ps))"
  by (induction ps) (auto intro: esc_rel.intros esc_rel_append esc_rel_escape_part)

lemma esc_rel_fix: "esc_rel l (fix_generics l)"
  using esc_rel_concat_map[of "re_split_spans l"]
  by (simp add: fix_generics_def concat_re_split_spans)

lemma esc_rel_set: "esc_rel s t \<Longrightarrow> set t \<subseteq> set s \<union> set ''&lt;gt;''"
  by (induction rule: esc_rel.induct) auto

lemma esc_rel_no_nl: "esc_rel s t \<Longrightarrow> nl \<notin> set s \<Longrightarrow> nl \<notin> set t"
  by (drule esc_rel_set) (auto simp: nl_def)

lemma esc_rel_bt_iff: "esc_rel s t \<Longrightarrow> bt \<in> set t \<longleftrightarrow> bt \<in> set s"
  by (induction rule: esc_rel.induct) (auto simp: bt_def lt_def gt_def)

lemma fix_generics_no_nl: "nl \<notin> set l \<Longrightarrow> nl \<notin> set (fix_generics l)"
  using esc_rel_fix esc_rel_no_nl by blast

lemma emitted_no_nl: "nl \<notin> set l \<Longrightarrow> x \<in> set (emitted i l st) \<Longrightarrow> nl \<notin> set x"
  by (auto simp: emitted_def fix_generics_no_nl split: if_splits)

lemma out_lines_no_nl:
  "\<forall>l\<in>set ls. nl \<notin> set l \<Longrightarrow> x \<in> set (out_lines ls) \<Longrightarrow> nl \<notin> set x"
proof (induction ls arbitrary: x rule: rev_induct)
  case Nil
  then show ?case by (simp add: out_lines_def run_Nil init_state_def)
next
  case (snoc l ls)
  then show ?case by (auto simp: out_lines_snoc dest: emitted_no_nl)
qed

lemma lines_preprocess: "split_nl (preprocess_markdown s) = out_lines (split_nl s)"
proof -
  have "out_lines (split_nl s) \<noteq> []"
    by (simp add: out_lines_empty_iff split_nl_nonempty)
  moreover have "\<forall>x\<in>set (out_lines (split_nl s)). nl \<notin> set x"
    using out_lines_no_nl[of "split_nl s"] split_nl_no_nl[of _ s] by blast
  ultimately show ?thesis
    by (simp add: preprocess_markdown_def out_lines_def[symmetric] run_def[symmetric] split_join_nl)
qed

section \<open>Properties of the line loop\<close>

lemma out_lines_split:
  "\<exists>post'. out_lines (pre @ l # post) = out_lines pre @ emitted (length pre) l (run pre) @ post'"
proof -
  obtain p where "out_lines ((pre @ [l]) @ post) = out_lines (pre @ [l]) @ p"
    using out_lines_append_ex by blast
  then show ?thesis by (simp add: out_lines_snoc)
qed

lemma loop_in_code:
  "in_code_block st \<Longrightarrow> \<forall>l\<in>set post. \<not> is_fence l \<Longrightarrow>
   loop i post st = st\<lparr>processed_lines := processed_lines st @ post\<rparr>"
proof (induction post arbitrary: i st)
  case Nil
  then show ?case by simp
next
  case (Cons l post)
  have "loop_body i l st = st\<lparr>processed_lines := processed_lines st @ [l]\<rparr>"
    using Cons.prems by (simp add: loop_body_def)
  then show ?case using Cons by simp
qed

lemma esc_rel_escaped_from: "esc_rel s t \<Longrightarrow> escaped_from s t"
  by (induction rule: esc_rel.induct) (simp_all add: startswith_def)

lemma interleaved_snoc:
  "interleaved ls outs \<Longrightarrow> escaped_from l x \<Longrightarrow>
   interleaved (ls @ [l]) (outs @ [x]) \<and> interleaved (ls @ [l]) (outs @ [[], x])"
proof (induction ls outs rule: interleaved.induct)
  case (1 outs)
  then show ?case by auto
next
  case (2 a ls outs)
  then show ?case by (auto split: list.splits)
qed

lemma emitted_cases:
  "emitted i l st = [l] \<or> emitted i l st = [fix_generics l] \<or> emitted i l st = [[], fix_generics l]"
  by (simp add: emitted_def)

lemma interleaved_out_lines: "interleaved ls (out_lines ls)"
proof (induction ls rule: rev_induct)
  case Nil
  then show ?case by (simp add: out_lines_def run_Nil init_state_def)
next
  case (snoc l ls)
  have k: "escaped_from l l" by (rule esc_rel_escaped_from[OF esc_rel_refl])
  have e: "escaped_from l (fix_generics l)" by (rule esc_rel_escaped_from[OF esc_rel_fix])
  show ?case
    using emitted_cases[of "length ls" l "run ls"] interleaved_snoc[OF snoc k]
      interleaved_snoc[OF snoc e]
    by (auto simp: out_lines_snoc)
qed

lemma length_out_lines: "length ls \<le> length (out_lines ls)"
proof (induction ls rule: rev_induct)
  case Nil
  then show ?case by simp
next
  case (snoc l ls)
  then show ?case
    using emitted_cases[of "length ls" l "run ls"] by (auto simp: out_lines_snoc)
qed

text \<open>
  Claim C2. A line that is a fence marker, or that comes after an odd number of fence
  markers, is appended to the output exactly as it is in the input, directly after what
  the lines before it produced: it is not escaped and no empty line is put before it.
\<close>

theorem fenced_lines_verbatim:
  assumes "split_nl s = pre @ l # post"
    and "is_fence l \<or> odd (fence_count pre)"
  shows "\<exists>post'. split_nl (preprocess_markdown s) = out_lines pre @ l # post'"
proof -
  have "emitted (length pre) l (run pre) = [l]"
    using assms(2) by (auto simp: emitted_def in_code_run)
  then show ?thesis
    using out_lines_split[of pre l post] assms(1) by (simp add: lines_preprocess)
qed

theorem fenced_lines_verbatim_witness:
  "\<exists>post'. split_nl (preprocess_markdown ''```rust\<newline>- Vec<T>\<newline>```'') =
     out_lines [''```rust''] @ ''- Vec<T>'' # post'"
proof -
  have a: "split_nl ''```rust\<newline>- Vec<T>\<newline>```'' = [''```rust''] @ ''- Vec<T>'' # [''```'']"
    by code_simp
  have b: "is_fence ''- Vec<T>'' \<or> odd (fence_count [''```rust''])"
    by code_simp
  show ?thesis by (rule fenced_lines_verbatim[OF a b])
qed


text \<open>
  Claim C3. Take a line that is not the first one, is outside fenced code and, after
  escaping, starts with \<open>- \<close> or with digits and \<open>. \<close>. One empty line is put directly
  before it exactly when the last line emitted so far is non-empty after trimming and
  starts neither with \<open>- \<close>, nor with digits and \<open>. \<close>, nor with \<open>#\<close>; otherwise
  nothing is put before it.
\<close>

theorem blank_line_before_list_item:
  assumes "split_nl s = pre @ l # post"
    and "pre \<noteq> []"
    and "\<not> is_fence l"
    and "even (fence_count pre)"
    and "startswith (fix_generics l) ''- '' \<or> match_numbered (fix_generics l)"
  shows "\<exists>post'. split_nl (preprocess_markdown s) =
           out_lines pre
           @ (if strip (last (out_lines pre)) \<noteq> []
                 \<and> \<not> startswith (last (out_lines pre)) ''- ''
                 \<and> \<not> match_numbered (last (out_lines pre))
                 \<and> \<not> startswith (last (out_lines pre)) ''#''
              then [[]] else [])
           @ fix_generics l # post'"
proof -
  have "emitted (length pre) l (run pre) =
          (if needs_blank (last (out_lines pre)) then [[]] else []) @ [fix_generics l]"
    using assms(2-5) by (simp add: emitted_def in_code_run out_lines_def is_list_item_def)
  then show ?thesis
    using out_lines_split[of pre l post] assms(1)
    by (simp add: lines_preprocess needs_blank_def)
qed

theorem blank_line_before_list_item_witness:
  "\<exists>post'. split_nl (preprocess_markdown ''Some text.\<newline>- Box<T>\<newline>- b'') =
     [''Some text.'', [], ''- Box&lt;T&gt;''] @ post'"
proof -
  have a: "split_nl ''Some text.\<newline>- Box<T>\<newline>- b'' = [''Some text.''] @ ''- Box<T>'' # [''- b'']"
    by code_simp
  have b: "[''Some text.''] \<noteq> []" by simp
  have c: "\<not> is_fence ''- Box<T>''" by code_simp
  have d: "even (fence_count [''Some text.''])" by code_simp
  have e: "startswith (fix_generics ''- Box<T>'') ''- '' \<or> match_numbered (fix_generics ''- Box<T>'')"
    by code_simp
  have f: "out_lines [''Some text.''] = [''Some text.'']" by code_simp
  have g: "strip ''Some text.'' \<noteq> [] \<and> \<not> startswith ''Some text.'' ''- ''
      \<and> \<not> match_numbered ''Some text.'' \<and> \<not> startswith ''Some text.'' ''#''" by code_simp
  have h: "fix_generics ''- Box<T>'' = ''- Box&lt;T&gt;''" by code_simp
  show ?thesis
    using blank_line_before_list_item[OF a b c d e] unfolding f h using g by simp
qed


text \<open>
  Claim C6. When the last emitted line starts with \<open>- \<close> and the next line with a
  numbered marker, or the other way round, the next line is emitted directly after it,
  with no empty line between the two.
\<close>

theorem no_blank_between_mixed_list_items:
  assumes "split_nl s = pre @ l # post"
    and "pre \<noteq> []"
    and "(startswith (last (out_lines pre)) ''- '' \<and> match_numbered l)
         \<or> (match_numbered (last (out_lines pre)) \<and> startswith l ''- '')"
  shows "\<exists>post'. split_nl (preprocess_markdown s) =
           out_lines pre @ (if is_fence l \<or> odd (fence_count pre) then l else fix_generics l) # post'"
proof -
  have "\<not> needs_blank (last (out_lines pre))"
    using assms(3) by (auto simp: needs_blank_def)
  then have "emitted (length pre) l (run pre) =
          [if is_fence l \<or> odd (fence_count pre) then l else fix_generics l]"
    by (simp add: emitted_def in_code_run out_lines_def)
  then show ?thesis
    using out_lines_split[of pre l post] assms(1) by (simp add: lines_preprocess)
qed

theorem no_blank_between_mixed_list_items_witness:
  "\<exists>post'. split_nl (preprocess_markdown ''- a\<newline>1. b'') = [''- a'', ''1. b''] @ post'"
proof -
  have a: "split_nl ''- a\<newline>1. b'' = [''- a''] @ ''1. b'' # []" by code_simp
  have b: "[''- a''] \<noteq> []" by simp
  have f: "out_lines [''- a''] = [''- a'']" by code_simp
  have c: "(startswith (last (out_lines [''- a''])) ''- '' \<and> match_numbered ''1. b'')
         \<or> (match_numbered (last (out_lines [''- a''])) \<and> startswith ''1. b'' ''- '')"
    unfolding f by code_simp
  have d: "\<not> (is_fence ''1. b'' \<or> odd (fence_count [''- a'']))" by code_simp
  have h: "fix_generics ''1. b'' = ''1. b''" by code_simp
  show ?thesis
    using no_blank_between_mixed_list_items[OF a b c] d unfolding f h by simp
qed


text \<open>
  Claim C7. With an odd number of fence markers the function still returns (it is total
  and has no error result); after the last fence marker the flag \<open>in_code_block\<close> is set
  and stays set, line after line, to the end of the document; and every line after that
  marker is emitted unchanged, with no escaping and no empty line added.
\<close>

theorem unbalanced_fence_rest_verbatim:
  assumes "odd (fence_count (split_nl s))"
    and "split_nl s = pre @ f # post"
    and "is_fence f"
    and "\<forall>l\<in>set post. \<not> is_fence l"
  shows "(\<forall>k\<le>length post. in_code_block (run (pre @ f # take k post)))
         \<and> split_nl (preprocess_markdown s) = out_lines pre @ f # post"
proof -
  have "filter is_fence post = []" using assms(4) by (induction post) auto
  then have ev: "even (fence_count pre)"
    using assms(1-3) by (simp add: fence_count_def)
  have flag: "in_code_block (run (pre @ f # take k post))" for k
  proof -
    have "filter is_fence (take k post) = []"
      using assms(4) by (auto simp: filter_empty_conv dest: in_set_takeD)
    then show ?thesis using ev assms(3) by (simp add: in_code_run fence_count_def)
  qed
  let ?st = "run (pre @ [f])"
  have ic: "in_code_block ?st" using flag[of 0] by simp
  have "run (pre @ f # post) = loop (length (pre @ [f])) post ?st"
    using loop_append[of 0 "pre @ [f]" post init_state] by (simp add: run_def)
  also have "\<dots> = ?st\<lparr>processed_lines := processed_lines ?st @ post\<rparr>"
    by (rule loop_in_code[OF ic assms(4)])
  finally have r: "run (pre @ f # post) = ?st\<lparr>processed_lines := processed_lines ?st @ post\<rparr>" .
  have "out_lines (pre @ [f]) = out_lines pre @ [f]"
    using assms(3) by (simp add: out_lines_snoc emitted_def)
  then have "out_lines (pre @ f # post) = out_lines pre @ f # post"
    using r by (simp add: out_lines_def)
  then show ?thesis
    using assms(2) flag by (simp add: lines_preprocess)
qed

theorem unbalanced_fence_rest_verbatim_witness:
  "in_code_block (run [''a'', ''```'', ''x<T>''])
   \<and> in_code_block (run [''a'', ''```'', ''x<T>'', ''- b''])
   \<and> split_nl (preprocess_markdown ''a\<newline>```\<newline>x<T>\<newline>- b'') = [''a'', ''```'', ''x<T>'', ''- b'']"
proof -
  have a: "odd (fence_count (split_nl ''a\<newline>```\<newline>x<T>\<newline>- b''))" by code_simp
  have b: "split_nl ''a\<newline>```\<newline>x<T>\<newline>- b'' = [''a''] @ ''```'' # [''x<T>'', ''- b'']" by code_simp
  have c: "is_fence ''```''" by code_simp
  have d: "\<forall>l\<in>set [''x<T>'', ''- b'']. \<not> is_fence l" by code_simp
  have f: "out_lines [''a''] = [''a'']" by code_simp
  note t = unbalanced_fence_rest_verbatim[OF a b c d]
  from t have fl: "\<forall>k\<le>length [''x<T>'', ''- b''].
      in_code_block (run ([''a''] @ ''```'' # take k [''x<T>'', ''- b'']))"
    by (rule conjunct1)
  from fl[rule_format, of 1] have 1: "in_code_block (run [''a'', ''```'', ''x<T>''])" by simp
  from fl[rule_format, of 2] have 2: "in_code_block (run [''a'', ''```'', ''x<T>'', ''- b''])" by simp
  from t have 3: "split_nl (preprocess_markdown ''a\<newline>```\<newline>x<T>\<newline>- b'')
      = [''a'', ''```'', ''x<T>'', ''- b'']"
    unfolding f by simp
  from 1 2 3 show ?thesis by simp
qed


text \<open>
  Claim C5. The output lines are the input lines in their order, each one rewritten at
  most by writing \<open>&lt;\<close> for some of its \<open><\<close> and \<open>&gt;\<close> for some of its \<open>>\<close>, with at
  most one empty line put in front of each; there are never fewer output lines than
  input lines. Deleting the inserted empty lines and writing the brackets back gives the
  input lines in their order.
\<close>

theorem lines_kept_in_order:
  "interleaved (split_nl s) (split_nl (preprocess_markdown s))
   \<and> length (split_nl s) \<le> length (split_nl (preprocess_markdown s))"
  by (simp add: lines_preprocess interleaved_out_lines length_out_lines)

theorem lines_kept_in_order_witness:
  "interleaved (split_nl ''t\<newline>- a<T>'') (split_nl (preprocess_markdown ''t\<newline>- a<T>''))
   \<and> length (split_nl ''t\<newline>- a<T>'') \<le> length (split_nl (preprocess_markdown ''t\<newline>- a<T>''))"
  by (rule lines_kept_in_order)

section \<open>The shape of what \<open>re.split\<close> returns\<close>

lemma is_span_iff:
  "is_span m \<longleftrightarrow> (\<exists>body. body \<noteq> [] \<and> bt \<notin> set body \<and> m = bt # body @ [bt])"
proof
  assume "is_span m"
  then show "\<exists>body. body \<noteq> [] \<and> bt \<notin> set body \<and> m = bt # body @ [bt]"
    using match_span_SomeD[of m m "[]"] by (auto simp: is_span_def)
next
  assume "\<exists>body. body \<noteq> [] \<and> bt \<notin> set body \<and> m = bt # body @ [bt]"
  then show "is_span m"
    using match_span_SomeI[of _ "[]"] by (auto simp: is_span_def)
qed

lemma match_span_is_span: "match_span s = Some (m, rest) \<Longrightarrow> is_span m"
  using match_span_SomeD[of s m rest] by (auto simp: is_span_iff)

lemma match_span_span_append: "is_span m \<Longrightarrow> match_span (m @ r) = Some (m, r)"
  using match_span_SomeI by (auto simp: is_span_iff)

lemma match_span_not_bt: "c \<noteq> bt \<Longrightarrow> match_span (c # cs) = None"
  by (simp add: match_span_def)

lemma match_span_bt_bt: "match_span (bt # bt # cs) = None"
  by (simp add: match_span_def)

lemma match_span_bt_Nil: "match_span [bt] = None"
  by (simp add: match_span_def)

lemma match_span_bt_None_iff:
  "match_span (bt # cs) = None \<longleftrightarrow> cs = [] \<or> hd cs = bt \<or> bt \<notin> set cs"
proof (cases cs)
  case Nil
  then show ?thesis by (simp add: match_span_def)
next
  case (Cons d ds)
  show ?thesis
  proof (cases "d = bt")
    case True
    with Cons show ?thesis by (simp add: match_span_def)
  next
    case False
    have "dropWhile (\<lambda>x. x \<noteq> bt) ds = [] \<longleftrightarrow> bt \<notin> set ds"
      by (auto simp: dropWhile_eq_Nil_conv)
    with False Cons show ?thesis by (auto simp: match_span_def Let_def)
  qed
qed

lemma dropWhile_not_bt_Nil: "bt \<notin> set t \<Longrightarrow> dropWhile (\<lambda>c. c \<noteq> bt) t = []"
  by (induction t) auto

lemma pre_span_Cons:
  "pre_span (c # t) \<longleftrightarrow> (if c = bt then list_all (\<lambda>c. c = bt) t else pre_span t)"
  by (simp add: pre_span_def)

lemma all_bt_pre_span: "list_all (\<lambda>c. c = bt) t \<Longrightarrow> pre_span t"
  by (cases t) (auto simp: pre_span_def)

lemma no_span_Cons_other: "c \<noteq> bt \<Longrightarrow> no_span (c # t) \<longleftrightarrow> no_span t"
  by (simp add: no_span_def)

lemma no_span_Cons_bt: "no_span (bt # t) \<longleftrightarrow> bt \<notin> set (dropWhile (\<lambda>c. c = bt) t)"
  by (simp add: no_span_def)

lemma no_span_bt_imp: "no_span (bt # t) \<Longrightarrow> no_span t"
proof (cases t)
  case Nil
  then show ?thesis by (simp add: no_span_def)
next
  case (Cons d ds)
  assume a: "no_span (bt # t)"
  show ?thesis
  proof (cases "d = bt")
    case True
    with a Cons show ?thesis by (simp add: no_span_def)
  next
    case False
    with a Cons have "bt \<notin> set t" by (simp add: no_span_def)
    then show ?thesis by (simp add: no_span_def dropWhile_not_bt_Nil)
  qed
qed

lemma no_span_match_None: "no_span (c # t) \<Longrightarrow> match_span (c # t) = None"
proof (cases "c = bt")
  case False
  then show ?thesis by (simp add: match_span_not_bt)
next
  case True
  assume a: "no_span (c # t)"
  show ?thesis
  proof (cases t)
    case Nil
    with True show ?thesis by (simp add: match_span_bt_Nil)
  next
    case (Cons d ds)
    show ?thesis
    proof (cases "d = bt")
      case True
      with \<open>c = bt\<close> Cons show ?thesis by (simp add: match_span_bt_bt)
    next
      case False
      with a \<open>c = bt\<close> Cons have "bt \<notin> set t" by (simp add: no_span_def)
      with \<open>c = bt\<close> show ?thesis by (simp add: match_span_bt_None_iff)
    qed
  qed
qed

lemma no_span_tail: "no_span (c # t) \<Longrightarrow> no_span t"
  by (cases "c = bt") (auto simp: no_span_Cons_other dest: no_span_bt_imp)

lemma split_no_span: "no_span t \<Longrightarrow> re_split_spans t = [t]"
proof (induction t)
  case Nil
  then show ?case by simp
next
  case (Cons c t)
  then show ?case
    by (simp add: no_span_match_None no_span_tail)
qed

lemma pre_span_match_None:
  assumes "pre_span (c # t)" "is_span m"
  shows "match_span ((c # t) @ m @ r) = None"
proof (cases "c = bt")
  case False
  then show ?thesis by (simp add: match_span_not_bt)
next
  case True
  with assms(1) have all: "list_all (\<lambda>c. c = bt) t" by (simp add: pre_span_Cons)
  from assms(2) obtain body where m: "m = bt # body @ [bt]" by (auto simp: is_span_iff)
  have "hd (t @ m @ r) = bt" using all m by (cases t) auto
  moreover have "t @ m @ r \<noteq> []" using m by simp
  ultimately show ?thesis using True by (simp add: match_span_bt_None_iff)
qed

lemma pre_span_tail: "pre_span (c # t) \<Longrightarrow> pre_span t"
  by (auto simp: pre_span_Cons all_bt_pre_span split: if_splits)

lemma split_pre_span:
  "pre_span t \<Longrightarrow> is_span m \<Longrightarrow> re_split_spans (t @ m @ r) = t # m # re_split_spans r"
proof (induction t)
  case Nil
  from Nil(2) obtain body where m: "m = bt # body @ [bt]" by (auto simp: is_span_iff)
  have "re_split_spans (m @ r) = [] # m # re_split_spans r"
    using match_span_span_append[OF Nil(2), of r] unfolding m by simp
  then show ?case by simp
next
  case (Cons c t)
  have n: "match_span (c # t @ m @ r) = None"
    using pre_span_match_None[OF Cons.prems, of r] by simp
  have "re_split_spans (t @ m @ r) = t # m # re_split_spans r"
    using Cons.IH[OF pre_span_tail[OF Cons.prems(1)] Cons.prems(2)] .
  with n show ?case by simp
qed

lemma split_unique: "wf_parts qs \<Longrightarrow> re_split_spans (concat qs) = qs"
proof (induction qs rule: wf_parts.induct)
  case 1
  then show ?case by simp
next
  case (2 t)
  then show ?case by (simp add: split_no_span)
next
  case (3 t m qs)
  then show ?case by (simp add: split_pre_span)
qed

lemma wf_parts_Cons_char:
  assumes "wf_parts (p # ps)" "match_span (c # concat (p # ps)) = None"
  shows "wf_parts ((c # p) # ps)"
proof (cases "c = bt")
  case False
  with assms(1) show ?thesis
    by (cases ps) (auto simp: no_span_Cons_other pre_span_Cons)
next
  case True
  show ?thesis
  proof (cases ps)
    case Nil
    with assms have np: "no_span p" and mn: "match_span (bt # p) = None"
      using True by auto
    from mn have d: "p = [] \<or> hd p = bt \<or> bt \<notin> set p" by (simp add: match_span_bt_None_iff)
    have "bt \<notin> set (dropWhile (\<lambda>c. c = bt) p)"
    proof (cases p)
      case Nil
      then show ?thesis by simp
    next
      case (Cons d ds)
      show ?thesis
      proof (cases "d = bt")
        case True
        with np Cons show ?thesis by (simp add: no_span_def)
      next
        case False
        with d Cons show ?thesis by auto
      qed
    qed
    with True Nil show ?thesis by (simp add: no_span_Cons_bt)
  next
    case (Cons m qs)
    with assms(1) have ps: "pre_span p" "is_span m" "wf_parts qs" by auto
    from ps(2) obtain body where m: "m = bt # body @ [bt]" by (auto simp: is_span_iff)
    from assms(2) True Cons have
      "p @ m @ concat qs = [] \<or> hd (p @ m @ concat qs) = bt \<or> bt \<notin> set (p @ m @ concat qs)"
      by (simp add: match_span_bt_None_iff)
    with m have h: "hd (p @ m @ concat qs) = bt" by auto
    have "list_all (\<lambda>c. c = bt) p"
    proof (cases p)
      case Nil
      then show ?thesis by simp
    next
      case (Cons d ds)
      with h have "d = bt" by simp
      with ps(1) Cons show ?thesis by (simp add: pre_span_Cons)
    qed
    with True Cons ps show ?thesis by (simp add: pre_span_Cons)
  qed
qed

lemma wf_parts_split: "wf_parts (re_split_spans s)"
proof (induction s rule: re_split_spans.induct)
  case 1
  then show ?case by (simp add: no_span_def)
next
  case (2 c cs)
  show ?case
  proof (cases "match_span (c # cs)")
    case None
    obtain p ps where p: "re_split_spans cs = p # ps"
      using re_split_spans_nonempty[of cs] by (cases "re_split_spans cs") auto
    have "concat (p # ps) = cs" using concat_re_split_spans[of cs] p by simp
    with None 2(1)[OF None] p show ?thesis
      using wf_parts_Cons_char[of p ps c] by simp
  next
    case (Some a)
    obtain m rest where a: "a = (m, rest)" by (cases a)
    have "is_span m" using Some a match_span_is_span by blast
    with 2(2)[OF Some[unfolded a] refl] Some a show ?thesis
      by (simp add: pre_span_def)
  qed
qed

section \<open>Escaping twice\<close>

lemma not_bt:
  "lt \<noteq> bt" "gt \<noteq> bt" "CHR ''&'' \<noteq> bt" "CHR ''l'' \<noteq> bt" "CHR ''g'' \<noteq> bt"
  "CHR ''t'' \<noteq> bt" "CHR '';'' \<noteq> bt"
  by (simp_all add: bt_def lt_def gt_def)

lemma esc_dropWhile_not_bt:
  "esc_rel s t \<Longrightarrow> esc_rel (dropWhile (\<lambda>c. c \<noteq> bt) s) (dropWhile (\<lambda>c. c \<noteq> bt) t)"
  by (induction rule: esc_rel.induct) (auto intro: esc_rel.intros simp: not_bt)

lemma esc_dropWhile_bt:
  "esc_rel s t \<Longrightarrow> esc_rel (dropWhile (\<lambda>c. c = bt) s) (dropWhile (\<lambda>c. c = bt) t)"
  by (induction rule: esc_rel.induct)
     (auto intro: esc_rel.intros esc_Lt[simplified] esc_Gt[simplified] simp: not_bt)

lemma esc_all_bt: "esc_rel s t \<Longrightarrow> list_all (\<lambda>c. c = bt) s \<Longrightarrow> t = s"
  by (induction rule: esc_rel.induct) (auto simp: not_bt)

lemma esc_pre_span: "esc_rel s t \<Longrightarrow> pre_span s \<Longrightarrow> pre_span t"
  unfolding pre_span_def using esc_all_bt esc_dropWhile_not_bt by fastforce

lemma esc_no_span: "esc_rel s t \<Longrightarrow> no_span s \<Longrightarrow> no_span t"
  unfolding no_span_def using esc_rel_bt_iff esc_dropWhile_bt esc_dropWhile_not_bt by blast

lemma escape_part_span: "is_span m \<Longrightarrow> escape_part m = m"
  by (auto simp: is_span_iff escape_part_def startswith_def endswith_def)

lemma wf_parts_escape: "wf_parts qs \<Longrightarrow> wf_parts (map escape_part qs)"
proof (induction qs rule: wf_parts.induct)
  case 1
  then show ?case by simp
next
  case (2 t)
  then show ?case using esc_no_span[OF esc_rel_escape_part] by simp
next
  case (3 t m qs)
  then show ?case using esc_pre_span[OF esc_rel_escape_part] by (simp add: escape_part_span)
qed

lemma esc_Nil_iff: "esc_rel s t \<Longrightarrow> t = [] \<longleftrightarrow> s = []"
  by (induction rule: esc_rel.induct) auto

lemma esc_hd_bt: "esc_rel s t \<Longrightarrow> startswith t [bt] \<longleftrightarrow> startswith s [bt]"
  by (induction rule: esc_rel.induct) (auto simp: startswith_def not_bt)

lemma endswith_bt_iff: "endswith s [bt] \<longleftrightarrow> s \<noteq> [] \<and> last s = bt"
  by (cases s rule: rev_cases) (auto simp: endswith_def startswith_def)

lemma esc_last_bt: "esc_rel s t \<Longrightarrow> endswith t [bt] \<longleftrightarrow> endswith s [bt]"
proof (induction rule: esc_rel.induct)
  case esc_Nil
  then show ?case by simp
next
  case (esc_Keep s t c)
  then show ?case using esc_Nil_iff[OF esc_Keep.hyps] by (auto simp: endswith_bt_iff)
next
  case (esc_Lt s t)
  then show ?case using esc_Nil_iff[OF esc_Lt.hyps]
    by (auto simp: endswith_bt_iff not_bt)
next
  case (esc_Gt s t)
  then show ?case using esc_Nil_iff[OF esc_Gt.hyps]
    by (auto simp: endswith_bt_iff not_bt)
qed

lemma sub_append_no_lt: "lt \<notin> set x \<Longrightarrow> re_sub_generics (x @ y) = x @ re_sub_generics y"
  by (induction x) (auto simp: match_generic_not_lt)

lemma esc_hd: "esc_rel (u # s) t \<Longrightarrow> t \<noteq> [] \<and> (hd t = u \<or> hd t = CHR ''&'')"
  by (erule esc_rel.cases) auto

lemma not_upper_amp: "\<not> is_upper (CHR ''&'')" "\<not> is_upper lt"
  by (simp_all add: is_upper_def lt_def)

lemma match_generic_second: "cs \<noteq> [] \<Longrightarrow> \<not> is_upper (hd cs) \<Longrightarrow> match_generic (c # cs) = None"
  by (cases cs) (auto simp: match_generic_def)

lemma match_generic_no_gt: "gt \<notin> set cs \<Longrightarrow> match_generic (c # cs) = None"
proof (cases cs)
  case Nil
  then show ?thesis by (simp add: match_generic_def)
next
  case (Cons u ds)
  assume "gt \<notin> set cs"
  with Cons have "dropWhile (\<lambda>x. x \<noteq> gt) ds = []" by (auto simp: dropWhile_eq_Nil_conv)
  with Cons show ?thesis by (simp add: match_generic_def Let_def)
qed

lemma sub_no_gt: "gt \<notin> set s \<Longrightarrow> gt \<notin> set (re_sub_generics s)"
  using esc_rel_set[OF esc_rel_sub, of s] by (auto simp: gt_def)

lemma match_generic_None_iff:
  "match_generic (c # cs) = None \<longleftrightarrow>
     c \<noteq> lt \<or> cs = [] \<or> \<not> is_upper (hd cs) \<or> gt \<notin> set (tl cs)"
proof (cases cs)
  case Nil
  then show ?thesis by (simp add: match_generic_def)
next
  case (Cons u ds)
  have "dropWhile (\<lambda>x. x \<noteq> gt) ds = [] \<longleftrightarrow> gt \<notin> set ds"
    by (auto simp: dropWhile_eq_Nil_conv)
  with Cons show ?thesis by (auto simp: match_generic_def Let_def)
qed

lemma match_generic_sub_None:
  assumes "match_generic (c # cs) = None"
  shows "match_generic (c # re_sub_generics cs) = None"
proof (cases "c = lt \<and> cs \<noteq> []")
  case False
  then show ?thesis by (cases cs) (auto simp: match_generic_None_iff)
next
  case True
  then obtain u ds where cs: "cs = u # ds" by (cases cs) auto
  show ?thesis
  proof (cases "is_upper u")
    case False
    have h: "re_sub_generics cs \<noteq> [] \<and> (hd (re_sub_generics cs) = u \<or> hd (re_sub_generics cs) = CHR ''&'')"
      using esc_hd[OF esc_rel_sub[of cs, unfolded cs]] cs by simp
    with False have "\<not> is_upper (hd (re_sub_generics cs))" using not_upper_amp by auto
    with h show ?thesis by (simp add: match_generic_second)
  next
    case u: True
    with assms True cs have g: "gt \<notin> set ds" by (simp add: match_generic_None_iff)
    have "u \<noteq> lt" using u not_upper_amp by auto
    then have "re_sub_generics cs = u # re_sub_generics ds"
      using cs by (simp add: match_generic_not_lt)
    with sub_no_gt[OF g] show ?thesis by (simp add: match_generic_None_iff)
  qed
qed

lemma no_open_Cons: "c \<noteq> lt \<Longrightarrow> no_open (c # z) = no_open z"
  by (cases z) (auto, (cases "tl z"; simp)?)

lemma no_open_tl: "no_open (c # z) \<Longrightarrow> no_open z"
  by (cases z) auto

lemma no_open_snoc: "no_open g \<Longrightarrow> \<not> is_upper d \<Longrightarrow> no_open (g @ [d])"
  by (induction g rule: no_open.induct) auto

lemma sub_copy: "no_open (x @ [d]) \<Longrightarrow> re_sub_generics (x @ d # y) = x @ re_sub_generics (d # y)"
proof (induction x)
  case Nil
  then show ?case by simp
next
  case (Cons c x)
  have t: "no_open (x @ [d])" using Cons.prems no_open_tl[of c "x @ [d]"] by simp
  have "c \<noteq> lt \<or> \<not> is_upper (hd (x @ d # y))"
    using Cons.prems by (cases x) auto
  then have "match_generic (c # x @ d # y) = None"
    by (auto simp: match_generic_None_iff)
  then show ?case using Cons.IH[OF t] by simp
qed

lemma no_nested_generic_suffix: "no_nested_generic (x @ y) \<Longrightarrow> no_nested_generic y"
  by (induction x) auto

lemma sub_idem: "no_nested_generic s \<Longrightarrow> re_sub_generics (re_sub_generics s) = re_sub_generics s"
proof (induction s rule: re_sub_generics.induct)
  case 1
  then show ?case by simp
next
  case (2 c cs)
  show ?case
  proof (cases "match_generic (c # cs)")
    case None
    have nn: "no_nested_generic cs" using 2(3) by simp
    have "re_sub_generics (c # cs) = c # re_sub_generics cs" using None by simp
    moreover have "re_sub_generics (c # re_sub_generics cs) = c # re_sub_generics (re_sub_generics cs)"
      using match_generic_sub_None[OF None] by simp
    ultimately show ?thesis using 2(1)[OF None nn] by simp
  next
    case (Some a)
    obtain g rest where a: "a = (g, rest)" by (cases a)
    from Some a obtain u body where
      g: "g = u # body" "is_upper u" "gt \<notin> set body" "c # cs = lt # u # body @ gt # rest"
      using match_generic_SomeD[of "c # cs" g rest] by auto
    have og: "no_open g" using 2(3) Some a by simp
    have "no_nested_generic ((lt # u # body @ [gt]) @ rest)" using 2(3) g(4) by simp
    then have nn: "no_nested_generic rest" by (rule no_nested_generic_suffix)
    have r: "re_sub_generics (c # cs) = (''&lt;'' @ g) @ CHR ''&'' # ''gt;'' @ re_sub_generics rest"
      using Some a by simp
    have "no_open (g @ [CHR ''&''])" using og not_upper_amp(1) by (rule no_open_snoc)
    then have "no_open ((''&lt;'' @ g) @ [CHR ''&''])"
      by (simp add: no_open_Cons lt_def)
    then have "re_sub_generics ((''&lt;'' @ g) @ CHR ''&'' # ''gt;'' @ re_sub_generics rest)
        = (''&lt;'' @ g) @ re_sub_generics (''&gt;'' @ re_sub_generics rest)"
      using sub_copy[of "''&lt;'' @ g" "CHR ''&''" "''gt;'' @ re_sub_generics rest"] by simp
    also have "re_sub_generics (''&gt;'' @ re_sub_generics rest)
        = ''&gt;'' @ re_sub_generics (re_sub_generics rest)"
      by (rule sub_append_no_lt) (simp add: lt_def)
    finally show ?thesis using r 2(2)[OF Some[unfolded a] refl nn] by simp
  qed
qed

lemma escape_part_idem: "no_nested_generic p \<Longrightarrow> escape_part (escape_part p) = escape_part p"
  using esc_hd_bt[OF esc_rel_sub, of p] esc_last_bt[OF esc_rel_sub, of p]
  by (auto simp: escape_part_def sub_idem)

lemma escape_part_idem_kept:
  "startswith p [bt] \<and> endswith p [bt] \<Longrightarrow> escape_part (escape_part p) = escape_part p"
  by (simp add: escape_part_def)

lemma fix_generics_idem:
  assumes "\<forall>p\<in>set (escaped_texts l). no_nested_generic p"
  shows "fix_generics (fix_generics l) = fix_generics l"
proof -
  let ?ps = "re_split_spans l"
  have "re_split_spans (concat (map escape_part ?ps)) = map escape_part ?ps"
    by (rule split_unique[OF wf_parts_escape[OF wf_parts_split]])
  then have "fix_generics (fix_generics l) = concat (map escape_part (map escape_part ?ps))"
    by (simp add: fix_generics_def)
  also have "map escape_part (map escape_part ?ps) = map escape_part ?ps"
  proof -
    have "escape_part (escape_part p) = escape_part p" if "p \<in> set ?ps" for p
    proof (cases "startswith p [bt] \<and> endswith p [bt]")
      case True
      then show ?thesis by (rule escape_part_idem_kept)
    next
      case False
      with that have "p \<in> set (escaped_texts l)" by (simp add: escaped_texts_def)
      with assms show ?thesis by (simp add: escape_part_idem)
    qed
    then show ?thesis by simp
  qed
  finally show ?thesis by (simp add: fix_generics_def)
qed

section \<open>Running the loop on its own output\<close>

lemma outside_code_snoc:
  "outside_code ic (ls @ [l]) =
     outside_code ic ls @ (if \<not> is_fence l \<and> (ic = odd (fence_count ls)) then [l] else [])"
proof (induction ls arbitrary: ic)
  case Nil
  then show ?case by (simp add: fence_count_def)
next
  case (Cons a ls)
  then show ?case by (auto simp: fence_count_def)
qed

lemma startswith_iff: "startswith s p \<longleftrightarrow> (\<exists>z. s = p @ z)"
proof
  assume "startswith s p"
  then have "s = p @ drop (length p) s"
    unfolding startswith_def by (metis append_take_drop_id)
  then show "\<exists>z. s = p @ z" ..
next
  assume "\<exists>z. s = p @ z"
  then show "startswith s p" by (auto simp: startswith_def)
qed

lemma rstrip_decomp:
  "\<exists>w. x = rev (dropWhile is_space (rev x)) @ w \<and> (\<forall>c\<in>set w. is_space c)"
proof -
  have "rev x = takeWhile is_space (rev x) @ dropWhile is_space (rev x)" by simp
  then have "x = rev (dropWhile is_space (rev x)) @ rev (takeWhile is_space (rev x))"
    by (metis rev_append rev_rev_ident)
  moreover have "\<forall>c\<in>set (rev (takeWhile is_space (rev x))). is_space c"
    by (auto dest: set_takeWhileD)
  ultimately show ?thesis by blast
qed

lemma startswith_rstrip:
  assumes "\<forall>c\<in>set p. \<not> is_space c"
  shows "startswith (rev (dropWhile is_space (rev x))) p \<longleftrightarrow> startswith x p"
proof -
  define r where "r = rev (dropWhile is_space (rev x))"
  obtain w where w: "x = r @ w" "\<forall>c\<in>set w. is_space c"
    using rstrip_decomp[of x] unfolding r_def by blast
  have "startswith r p \<longleftrightarrow> startswith x p"
  proof
    assume "startswith r p"
    then obtain z where "r = p @ z" by (auto simp: startswith_iff)
    then have "x = p @ z @ w" using w(1) by simp
    then show "startswith x p" unfolding startswith_iff by blast
  next
    assume "startswith x p"
    then obtain z where "x = p @ z" by (auto simp: startswith_iff)
    with w(1) have "r @ w = p @ z" by simp
    then obtain us where us: "(r = p @ us \<and> us @ w = z) \<or> (r @ us = p \<and> w = us @ z)"
      by (auto simp: append_eq_append_conv2)
    then show "startswith r p"
    proof
      assume "r = p @ us \<and> us @ w = z"
      then show ?thesis unfolding startswith_iff by blast
    next
      assume a: "r @ us = p \<and> w = us @ z"
      then have "set us \<subseteq> set p" "set us \<subseteq> set w" by auto
      with assms w(2) have "us = []" by (cases us) auto
      with a show ?thesis unfolding startswith_iff by auto
    qed
  qed
  then show ?thesis unfolding r_def .
qed

lemma not_space: "\<not> is_space bt" "\<not> is_space lt" "\<not> is_space gt" "\<not> is_space (CHR ''&'')"
  by (simp_all add: is_space_def bt_def lt_def gt_def)

lemma is_fence_lstrip: "is_fence l \<longleftrightarrow> startswith (dropWhile is_space l) [bt, bt, bt]"
  unfolding is_fence_def strip_def by (rule startswith_rstrip) (simp add: not_space)

lemma esc_dropWhile_space:
  "esc_rel s t \<Longrightarrow> esc_rel (dropWhile is_space s) (dropWhile is_space t)"
  by (induction rule: esc_rel.induct)
     (auto intro: esc_rel.intros esc_Lt[simplified] esc_Gt[simplified] simp: not_space)

lemma esc_startswith_bts:
  "esc_rel s t \<Longrightarrow> list_all (\<lambda>c. c = bt) p \<Longrightarrow> startswith t p \<longleftrightarrow> startswith s p"
proof (induction arbitrary: p rule: esc_rel.induct)
  case esc_Nil
  then show ?case by simp
next
  case (esc_Keep s t c)
  then show ?case by (cases p) (auto simp: startswith_def)
next
  case (esc_Lt s t)
  then show ?case by (cases p) (auto simp: startswith_def not_bt)
next
  case (esc_Gt s t)
  then show ?case by (cases p) (auto simp: startswith_def not_bt)
qed

lemma esc_is_fence: "esc_rel s t \<Longrightarrow> is_fence t \<longleftrightarrow> is_fence s"
  unfolding is_fence_lstrip
  by (rule esc_startswith_bts[OF esc_dropWhile_space]) simp_all

lemma is_fence_fix: "is_fence (fix_generics l) \<longleftrightarrow> is_fence l"
  by (rule esc_is_fence[OF esc_rel_fix])

lemma is_fence_Nil: "\<not> is_fence []"
  by (simp add: is_fence_def strip_def startswith_def)

lemma fix_generics_Nil: "fix_generics [] = []"
  by (simp add: fix_generics_def escape_part_def startswith_def)

lemma not_list_item_Nil: "\<not> is_list_item []"
  by (simp add: is_list_item_def match_numbered_def startswith_def)

lemma not_needs_blank_Nil: "\<not> needs_blank []"
  by (simp add: needs_blank_def strip_def)

lemma fence_count_emitted:
  "fence_count (emitted i l st) = (if is_fence l then 1 else 0)"
  by (auto simp: emitted_def fence_count_def is_fence_fix is_fence_Nil)

lemma fence_count_append: "fence_count (xs @ ys) = fence_count xs + fence_count ys"
  by (simp add: fence_count_def)

lemma fence_count_out_lines: "fence_count (out_lines ls) = fence_count ls"
proof (induction ls rule: rev_induct)
  case Nil
  then show ?case by (simp add: out_lines_def run_Nil init_state_def)
next
  case (snoc l ls)
  then show ?case
    by (simp add: out_lines_snoc fence_count_append fence_count_emitted) (simp add: fence_count_def)
qed

lemma out_lines_idem:
  "\<forall>l\<in>set (outside_code False ls). \<forall>p\<in>set (escaped_texts l). no_nested_generic p \<Longrightarrow>
   out_lines (out_lines ls) = out_lines ls"
proof (induction ls rule: rev_induct)
  case Nil
  then show ?case by (simp add: out_lines_def run_Nil init_state_def)
next
  case (snoc l ls)
  let ?O = "out_lines ls"
  have "\<forall>l\<in>set (outside_code False ls). \<forall>p\<in>set (escaped_texts l). no_nested_generic p"
    using snoc.prems by (auto simp: outside_code_snoc)
  then have ih: "out_lines ?O = ?O"
    by (rule snoc.IH)
  have ic: "in_code_block (run ?O) = in_code_block (run ls)"
    by (simp add: in_code_run fence_count_out_lines)
  have pl: "processed_lines (run ?O) = ?O"
    using ih by (simp add: out_lines_def)
  have len: "0 < length ?O \<longleftrightarrow> 0 < length ls"
    using out_lines_empty_iff[of ls] by auto
  show ?case
  proof (cases "is_fence l \<or> in_code_block (run ls)")
    case True
    then have e: "emitted (length ls) l (run ls) = [l]" by (auto simp: emitted_def)
    have "emitted (length ?O) l (run ?O) = [l]" using True ic by (auto simp: emitted_def)
    then have "out_lines (?O @ [l]) = ?O @ [l]"
      using ih by (simp add: out_lines_snoc)
    with e show ?thesis by (simp add: out_lines_snoc)
  next
    case False
    then have nn: "\<forall>p\<in>set (escaped_texts l). no_nested_generic p"
      using snoc.prems by (auto simp: outside_code_snoc in_code_run)
    let ?l = "fix_generics l"
    have idem: "fix_generics ?l = ?l" by (rule fix_generics_idem[OF nn])
    have nf: "\<not> is_fence ?l" using False by (simp add: is_fence_fix)
    show ?thesis
    proof (cases "0 < length ls \<and> is_list_item ?l \<and> needs_blank (last ?O)")
      case True
      then have e: "emitted (length ls) l (run ls) = [[], ?l]"
        using False by (simp add: emitted_def out_lines_def)
      have b: "out_lines (?O @ [[]]) = ?O @ [[]]"
        using ih ic False
        by (simp add: out_lines_snoc emitted_def is_fence_Nil fix_generics_Nil not_list_item_Nil)
      have icb: "\<not> in_code_block (run (?O @ [[]]))"
        using ic False by (simp add: in_code_run fence_count_append) (simp add: fence_count_def is_fence_Nil)
      have plb: "processed_lines (run (?O @ [[]])) = ?O @ [[]]"
        using b by (simp add: out_lines_def)
      have "emitted (length (?O @ [[]])) ?l (run (?O @ [[]])) = [?l]"
        using nf icb idem plb by (simp add: emitted_def not_needs_blank_Nil)
      then have "out_lines ((?O @ [[]]) @ [?l]) = (?O @ [[]]) @ [?l]"
        using b by (simp only: out_lines_snoc)
      with e show ?thesis by (simp add: out_lines_snoc)
    next
      case c: False
      then have e: "emitted (length ls) l (run ls) = [?l]"
        using False by (auto simp: emitted_def out_lines_def)
      have "emitted (length ?O) ?l (run ?O) = [?l]"
        using nf ic False idem pl c len by (auto simp: emitted_def)
      then have "out_lines (?O @ [?l]) = ?O @ [?l]"
        using ih by (simp add: out_lines_snoc)
      with e show ?thesis by (simp add: out_lines_snoc)
    qed
  qed
qed

text \<open>
  Claim C4, as amended. Applying \<open>preprocess_markdown\<close> twice gives the same text as
  applying it once, for every input in which, on the lines outside fenced code, no piece
  of text that Fix 1 hands to \<open>re.sub\<close> has a generic inside a generic: a \<open><\<close> directly
  followed by an uppercase letter, between a \<open><\<close> directly followed by an uppercase
  letter and the next \<open>>\<close> after it. A \<open><\<close> that is not followed by an uppercase letter
  may stand anywhere, and nothing is asked of the backticks.
\<close>

theorem preprocess_idempotent:
  assumes "\<forall>l\<in>set (outside_code False (split_nl s)). \<forall>p\<in>set (escaped_texts l). no_nested_generic p"
  shows "preprocess_markdown (preprocess_markdown s) = preprocess_markdown s"
proof -
  have "preprocess_markdown (preprocess_markdown s)
          = join_nl (out_lines (split_nl (preprocess_markdown s)))"
    by (simp add: preprocess_markdown_def out_lines_def run_def)
  also have "\<dots> = join_nl (out_lines (out_lines (split_nl s)))"
    by (simp add: lines_preprocess)
  also have "\<dots> = join_nl (out_lines (split_nl s))"
    using out_lines_idem[OF assms] by simp
  also have "\<dots> = preprocess_markdown s"
    by (simp add: preprocess_markdown_def out_lines_def run_def)
  finally show ?thesis .
qed

theorem preprocess_idempotent_witness:
  "preprocess_markdown (preprocess_markdown ''Use `Vec<Vec<T>>` or Result<T, E>\<newline>if n < len then Option<T>\<newline>a < b < c\<newline>- x\<newline>```\<newline>Vec<Vec<T>>\<newline>```'')
     = preprocess_markdown ''Use `Vec<Vec<T>>` or Result<T, E>\<newline>if n < len then Option<T>\<newline>a < b < c\<newline>- x\<newline>```\<newline>Vec<Vec<T>>\<newline>```''"
proof -
  have "\<forall>l\<in>set (outside_code False (split_nl ''Use `Vec<Vec<T>>` or Result<T, E>\<newline>if n < len then Option<T>\<newline>a < b < c\<newline>- x\<newline>```\<newline>Vec<Vec<T>>\<newline>```'')).
          \<forall>p\<in>set (escaped_texts l). no_nested_generic p"
    by code_simp
  then show ?thesis by (rule preprocess_idempotent)
qed

text \<open>
  Claim C4 as stated fails on a nested generic, in a text without any backtick: the first
  pass gives \<open>Vec&lt;Vec<T&gt;>\<close>, and the second pass finds a new match from the
  remaining \<open><\<close> to the remaining \<open>>\<close>.
\<close>

theorem not_idempotent_counterexample:
  "bt \<notin> set ''Vec<Vec<T>>''
   \<and> preprocess_markdown (preprocess_markdown ''Vec<Vec<T>>'') \<noteq> preprocess_markdown ''Vec<Vec<T>>''"
  by code_simp

section \<open>What Fix 1 replaces\<close>

lemma wf_parts_member:
  "wf_parts qs \<Longrightarrow> p \<in> set qs \<Longrightarrow> is_span p \<or> pre_span p \<or> no_span p"
  by (induction qs rule: wf_parts.induct) auto

lemma startswith_bt_iff: "startswith s [bt] \<longleftrightarrow> s \<noteq> [] \<and> hd s = bt"
  by (cases s) (auto simp: startswith_def)

lemma text_part_all_bt:
  assumes "pre_span p \<or> no_span p" "startswith p [bt]" "endswith p [bt]"
  shows "list_all (\<lambda>c. c = bt) p"
proof -
  from assms(2) obtain t where p: "p = bt # t" by (cases p) (auto simp: startswith_bt_iff)
  from assms(1) show ?thesis
  proof
    assume "pre_span p"
    with p show ?thesis by (simp add: pre_span_Cons)
  next
    assume "no_span p"
    with p have nb: "bt \<notin> set (dropWhile (\<lambda>c. c = bt) p)" by (simp add: no_span_def)
    have "dropWhile (\<lambda>c. c = bt) p = []"
    proof (rule ccontr)
      assume ne: "dropWhile (\<lambda>c. c = bt) p \<noteq> []"
      have "p = takeWhile (\<lambda>c. c = bt) p @ dropWhile (\<lambda>c. c = bt) p" by simp
      then have "last p = last (dropWhile (\<lambda>c. c = bt) p)" using ne by (metis last_appendR)
      with ne have "last p \<in> set (dropWhile (\<lambda>c. c = bt) p)" by simp
      with nb assms(3) show False by (simp add: endswith_bt_iff)
    qed
    then show ?thesis by (simp add: dropWhile_eq_Nil_conv list_all_iff)
  qed
qed

lemma sub_no_lt: "lt \<notin> set p \<Longrightarrow> re_sub_generics p = p"
  using sub_append_no_lt[of p "[]"] by simp

lemma escape_part_text:
  assumes "pre_span p \<or> no_span p"
  shows "escape_part p = re_sub_generics p"
proof (cases "startswith p [bt] \<and> endswith p [bt]")
  case True
  with assms have "list_all (\<lambda>c. c = bt) p" using text_part_all_bt by blast
  then have "lt \<notin> set p" using not_bt(1) by (auto simp: list_all_iff)
  with True show ?thesis by (simp add: escape_part_def sub_no_lt)
next
  case False
  then show ?thesis by (auto simp: escape_part_def)
qed

lemma fix_generics_by_span:
  "fix_generics line =
     concat (map (\<lambda>p. if is_span p then p else re_sub_generics p) (re_split_spans line))"
proof -
  have "escape_part p = (if is_span p then p else re_sub_generics p)"
    if "p \<in> set (re_split_spans line)" for p
    using wf_parts_member[OF wf_parts_split that] escape_part_span escape_part_text by auto
  then show ?thesis by (simp add: fix_generics_def cong: map_cong)
qed

lemma no_bt_no_span: "bt \<notin> set l \<Longrightarrow> no_span l"
  by (simp add: no_span_def dropWhile_not_bt_Nil)

lemma fix_generics_no_bt: "bt \<notin> set l \<Longrightarrow> fix_generics l = re_sub_generics l"
  using escape_part_text[of l] by (simp add: fix_generics_def split_no_span no_bt_no_span)

lemma is_fence_has_bt: "is_fence l \<Longrightarrow> bt \<in> set l"
proof -
  assume "is_fence l"
  then obtain z where "dropWhile is_space l = [bt, bt, bt] @ z"
    unfolding is_fence_lstrip startswith_iff by blast
  then have "bt \<in> set (dropWhile is_space l)" by simp
  then show ?thesis by (auto dest: set_dropWhileD)
qed

lemma set_split_nl: "x \<in> set (split_nl s) \<Longrightarrow> set x \<subseteq> set s"
proof -
  assume "x \<in> set (split_nl s)"
  then obtain xs ys where "split_nl s = xs @ x # ys" by (auto dest: split_list)
  then have "s = join_nl (xs @ x # ys)" using join_split_nl[of s] by simp
  moreover have "set x \<subseteq> set (join_nl (xs @ x # ys))"
  proof (induction xs)
    case Nil
    then show ?case by (cases ys) auto
  next
    case (Cons a xs)
    then show ?case by (cases "xs @ x # ys") auto
  qed
  ultimately show ?thesis by simp
qed

lemma outside_code_line:
  assumes "split_nl s = pre @ l # post" "\<not> is_fence l" "even (fence_count pre)"
  shows "\<exists>ins post'. (ins = [] \<or> ins = [[]]) \<and>
     split_nl (preprocess_markdown s) = out_lines pre @ ins @ fix_generics l # post'"
proof -
  have "emitted (length pre) l (run pre) = [fix_generics l]
        \<or> emitted (length pre) l (run pre) = [[], fix_generics l]"
    using assms(2,3) by (simp add: emitted_def in_code_run)
  then show ?thesis
    using out_lines_split[of pre l post] assms(1)
    by (auto simp: lines_preprocess)
qed

lemma no_bt_lines:
  assumes "bt \<notin> set s" "split_nl s = pre @ l # post"
  shows "\<not> is_fence l \<and> even (fence_count pre) \<and> fix_generics l = re_sub_generics l"
proof -
  have nb: "bt \<notin> set x" if "x \<in> set (split_nl s)" for x
    using set_split_nl[OF that] assms(1) by auto
  have "filter is_fence pre = []"
    using nb assms(2) is_fence_has_bt by (auto simp: filter_empty_conv)
  then have "even (fence_count pre)" by (simp add: fence_count_def)
  moreover have "\<not> is_fence l" using nb[of l] assms(2) is_fence_has_bt by auto
  moreover have "fix_generics l = re_sub_generics l"
    using nb[of l] assms(2) by (simp add: fix_generics_no_bt)
  ultimately show ?thesis by simp
qed

lemma sub_no_gt_id: "gt \<notin> set t \<Longrightarrow> re_sub_generics t = t"
proof (induction t)
  case Nil
  then show ?case by simp
next
  case (Cons c t)
  then show ?case by (simp add: match_generic_no_gt)
qed

lemma split_nl_prepend:
  "nl \<notin> set m \<Longrightarrow> split_nl (m @ y) = (m @ hd (split_nl y)) # tl (split_nl y)"
proof (induction m)
  case Nil
  then show ?case using split_nl_nonempty[of y] by simp
next
  case (Cons c m)
  then show ?case by auto
qed

lemma split_nl_append:
  "split_nl (x @ y) =
     butlast (split_nl x) @ (last (split_nl x) @ hd (split_nl y)) # tl (split_nl y)"
proof (induction x)
  case Nil
  then show ?case using split_nl_nonempty[of y] by simp
next
  case (Cons c x)
  obtain a as where a: "split_nl x = a # as"
    using split_nl_nonempty[of x] by (cases "split_nl x") auto
  show ?case
  proof (cases "c = nl")
    case True
    then show ?thesis using Cons a by simp
  next
    case False
    show ?thesis
    proof (cases as)
      case Nil
      then show ?thesis using Cons a False by simp
    next
      case (Cons b bs)
      then show ?thesis using Cons.IH a False by simp
    qed
  qed
qed

lemma closed_before_tl: "closed_before (c # z) \<Longrightarrow> closed_before z"
  by (cases z) auto

lemma closed_before_suffix: "closed_before (x @ y) \<Longrightarrow> closed_before y"
  by (induction x) (auto dest: closed_before_tl)

lemma closed_before_None:
  assumes "closed_before (c # cs)" "match_generic (c # cs) = None"
  shows "match_generic (c # cs @ lt # r) = None"
proof (cases cs)
  case Nil
  then show ?thesis by (simp add: match_generic_None_iff not_upper_amp)
next
  case (Cons d ds)
  with assms show ?thesis by (auto simp: match_generic_None_iff)
qed

lemma sub_append_closed:
  "closed_before a \<Longrightarrow> re_sub_generics (a @ lt # r) = re_sub_generics a @ re_sub_generics (lt # r)"
proof (induction a rule: re_sub_generics.induct)
  case 1
  then show ?case by simp
next
  case (2 c cs)
  show ?case
  proof (cases "match_generic (c # cs)")
    case None
    have cl: "closed_before cs" using 2(3) by (rule closed_before_tl)
    have "match_generic (c # cs @ lt # r) = None"
      using 2(3) None by (rule closed_before_None)
    then have "re_sub_generics ((c # cs) @ lt # r) = c # re_sub_generics (cs @ lt # r)" by simp
    then show ?thesis using None 2(1)[OF None cl] by simp
  next
    case (Some m)
    obtain g rest where m: "m = (g, rest)" by (cases m)
    from Some m obtain u body where
      g: "g = u # body" "is_upper u" "gt \<notin> set body" "c # cs = lt # u # body @ gt # rest"
      using match_generic_SomeD[of "c # cs" g rest] by auto
    have "closed_before ((lt # u # body @ [gt]) @ rest)" using 2(3) g(4) by simp
    then have cl: "closed_before rest" by (rule closed_before_suffix)
    have "(c # cs) @ lt # r = lt # u # body @ gt # (rest @ lt # r)" using g(4) by simp
    then have "match_generic ((c # cs) @ lt # r) = Some (g, rest @ lt # r)"
      using match_generic_SomeI[OF g(2,3), of "rest @ lt # r"] g(1) by simp
    then have "re_sub_generics ((c # cs) @ lt # r)
        = ''&lt;'' @ g @ ''&gt;'' @ re_sub_generics (rest @ lt # r)"
      by simp
    then show ?thesis using Some m 2(2)[OF Some[unfolded m] refl cl] by simp
  qed
qed

lemma sub_generic_on_line:
  assumes "closed_before a" "is_upper u" "gt \<notin> set g"
  shows "re_sub_generics (a @ lt # u # g @ gt # b)
     = re_sub_generics a @ ''&lt;'' @ u # g @ ''&gt;'' @ re_sub_generics b"
  using sub_append_closed[OF assms(1), of "u # g @ gt # b"]
    match_generic_SomeI[OF assms(2,3), of b] by simp


lemma sub_no_generic:
  "(\<forall>a u g b. t = a @ lt # u # g @ gt # b \<longrightarrow> \<not> is_upper u) \<Longrightarrow> re_sub_generics t = t"
proof (induction t rule: re_sub_generics.induct)
  case 1
  then show ?case by simp
next
  case (2 c cs)
  show ?case
  proof (cases "match_generic (c # cs)")
    case None
    have "\<forall>a u g b. cs = a @ lt # u # g @ gt # b \<longrightarrow> \<not> is_upper u"
    proof (intro allI impI)
      fix a u g b
      assume "cs = a @ lt # u # g @ gt # b"
      then have "c # cs = (c # a) @ lt # u # g @ gt # b" by simp
      with 2(3) show "\<not> is_upper u" by blast
    qed
    with None 2(1)[OF None] show ?thesis by simp
  next
    case (Some m)
    obtain g r where m: "m = (g, r)" by (cases m)
    from Some m obtain u body where
      g: "is_upper u" "c # cs = lt # u # body @ gt # r"
      using match_generic_SomeD[of "c # cs" g r] by auto
    then have "c # cs = [] @ lt # u # body @ gt # r" by simp
    with 2(3) g(1) show ?thesis by blast
  qed
qed

lemma any_line:
  assumes "split_nl s = pre @ l # post"
  shows "\<exists>ins post'. (ins = [] \<or> ins = [[]]) \<and>
     split_nl (preprocess_markdown s) = out_lines pre @ ins @
       (if is_fence l \<or> odd (fence_count pre) then l
        else concat (map (\<lambda>p. if is_span p then p else re_sub_generics p) (re_split_spans l)))
       # post'"
proof -
  let ?out = "if is_fence l \<or> odd (fence_count pre) then l else fix_generics l"
  have "emitted (length pre) l (run pre) = [?out] \<or> emitted (length pre) l (run pre) = [[], ?out]"
    by (simp add: emitted_def in_code_run)
  then have "\<exists>ins post'. (ins = [] \<or> ins = [[]]) \<and>
     split_nl (preprocess_markdown s) = out_lines pre @ ins @ ?out # post'"
    using out_lines_split[of pre l post] assms
    by (auto simp: lines_preprocess)
  then show ?thesis by (simp only: fix_generics_by_span)
qed

lemma generic_in_text:
  assumes "bt \<notin> set s" "s = x @ lt # u # g @ gt # y" "is_upper u" "gt \<notin> set g" "nl \<notin> set g"
    and "closed_before (last (split_nl x))"
  shows "\<exists>ins post'. (ins = [] \<or> ins = [[]]) \<and>
     split_nl (preprocess_markdown s) = out_lines (butlast (split_nl x)) @ ins @
       (re_sub_generics (last (split_nl x)) @ ''&lt;'' @ u # g @ ''&gt;''
          @ re_sub_generics (hd (split_nl y))) # post'"
proof -
  let ?m = "lt # u # g @ [gt]"
  let ?l = "last (split_nl x) @ lt # u # g @ gt # hd (split_nl y)"
  have "u \<noteq> nl" using assms(3) by (auto simp: is_upper_def nl_def)
  then have "nl \<notin> set ?m" using assms(5) by (simp add: nl_def lt_def gt_def)
  then have "split_nl (?m @ y) = (?m @ hd (split_nl y)) # tl (split_nl y)"
    by (rule split_nl_prepend)
  moreover have "s = x @ ?m @ y" using assms(2) by simp
  ultimately have sp: "split_nl s = butlast (split_nl x) @ ?l # tl (split_nl y)"
    using split_nl_append[of x "?m @ y"] by simp
  have nb: "\<not> is_fence ?l" "even (fence_count (butlast (split_nl x)))"
      "fix_generics ?l = re_sub_generics ?l"
    using no_bt_lines[OF assms(1) sp] by simp_all
  have "re_sub_generics ?l = re_sub_generics (last (split_nl x)) @ ''&lt;'' @ u # g @ ''&gt;''
          @ re_sub_generics (hd (split_nl y))"
    using assms(6,3,4) by (rule sub_generic_on_line)
  then show ?thesis using outside_code_line[OF sp nb(1,2)] nb(3) by simp
qed

lemma line_without_generic:
  assumes "bt \<notin> set s" "split_nl s = pre @ l # post"
    and "\<forall>a v h b. l = a @ lt # v # h @ gt # b \<longrightarrow> \<not> is_upper v"
  shows "\<exists>ins post'. (ins = [] \<or> ins = [[]]) \<and>
     split_nl (preprocess_markdown s) = out_lines pre @ ins @ l # post'"
proof -
  have nb: "\<not> is_fence l" "even (fence_count pre)" "fix_generics l = re_sub_generics l"
    using no_bt_lines[OF assms(1,2)] by simp_all
  have "re_sub_generics l = l" using assms(3) by (rule sub_no_generic)
  then show ?thesis using outside_code_line[OF assms(2) nb(1,2)] nb(3) by simp
qed

text \<open>
  Claim C1, as amended. In an input string without backticks, take a substring made of
  \<open><\<close>, an uppercase letter \<open>u\<close>, a run \<open>g\<close> of characters other than \<open>>\<close> and newline,
  and \<open>>\<close>, such that every earlier \<open><\<close> directly followed by an uppercase letter on
  its line has a \<open>>\<close> before it (the substring does not begin inside another one). The
  line it stands on is emitted, after the output of the lines before it and at most one
  inserted empty line, with the substring replaced by \<open>&lt;\<close>, \<open>u\<close>, \<open>g\<close>, \<open>&gt;\<close>, and
  the text before and after it on the line treated in the same way. A line with no such
  substring is emitted unchanged. For any input, with or without backticks, the parts
  that \<open>re.split\<close> returns make up the line, and the line is emitted as it is when it
  is a fence marker or inside fenced code, and otherwise as these parts in order, each
  part that is exactly a backtick span copied and every other part put through
  \<open>re_sub_generics\<close>.
\<close>

theorem generics_escaped_where_not_nested:
  "(bt \<notin> set s \<and> s = x @ lt # u # g @ gt # y \<and> is_upper u \<and> gt \<notin> set g \<and> nl \<notin> set g
      \<and> closed_before (last (split_nl x)) \<longrightarrow>
      (\<exists>ins post'. (ins = [] \<or> ins = [[]]) \<and>
         split_nl (preprocess_markdown s) = out_lines (butlast (split_nl x)) @ ins @
           (re_sub_generics (last (split_nl x)) @ ''&lt;'' @ u # g @ ''&gt;''
              @ re_sub_generics (hd (split_nl y))) # post'))
   \<and> (bt \<notin> set s \<and> split_nl s = pre @ l # post
        \<and> (\<forall>a v h b. l = a @ lt # v # h @ gt # b \<longrightarrow> \<not> is_upper v) \<longrightarrow>
      (\<exists>ins post'. (ins = [] \<or> ins = [[]]) \<and>
         split_nl (preprocess_markdown s) = out_lines pre @ ins @ l # post'))
   \<and> (split_nl s = pre @ l # post \<longrightarrow>
        concat (re_split_spans l) = l
        \<and> (\<exists>ins post'. (ins = [] \<or> ins = [[]]) \<and>
             split_nl (preprocess_markdown s) = out_lines pre @ ins @
               (if is_fence l \<or> odd (fence_count pre) then l
                else concat (map (\<lambda>p. if is_span p then p else re_sub_generics p)
                               (re_split_spans l))) # post'))"
proof (intro conjI impI)
  assume h: "bt \<notin> set s \<and> s = x @ lt # u # g @ gt # y \<and> is_upper u \<and> gt \<notin> set g \<and> nl \<notin> set g
      \<and> closed_before (last (split_nl x))"
  show "\<exists>ins post'. (ins = [] \<or> ins = [[]]) \<and>
         split_nl (preprocess_markdown s) = out_lines (butlast (split_nl x)) @ ins @
           (re_sub_generics (last (split_nl x)) @ ''&lt;'' @ u # g @ ''&gt;''
              @ re_sub_generics (hd (split_nl y))) # post'"
    by (rule generic_in_text)
      (rule conjunct1[OF h], rule conjunct1[OF conjunct2[OF h]],
       rule conjunct1[OF conjunct2[OF conjunct2[OF h]]],
       rule conjunct1[OF conjunct2[OF conjunct2[OF conjunct2[OF h]]]],
       rule conjunct1[OF conjunct2[OF conjunct2[OF conjunct2[OF conjunct2[OF h]]]]],
       rule conjunct2[OF conjunct2[OF conjunct2[OF conjunct2[OF conjunct2[OF h]]]]])
next
  assume h: "bt \<notin> set s \<and> split_nl s = pre @ l # post
        \<and> (\<forall>a v h b. l = a @ lt # v # h @ gt # b \<longrightarrow> \<not> is_upper v)"
  show "\<exists>ins post'. (ins = [] \<or> ins = [[]]) \<and>
         split_nl (preprocess_markdown s) = out_lines pre @ ins @ l # post'"
    by (rule line_without_generic[of s pre l post])
      (rule conjunct1[OF h], rule conjunct1[OF conjunct2[OF h]], rule conjunct2[OF conjunct2[OF h]])
next
  show "concat (re_split_spans l) = l" by (rule concat_re_split_spans)
next
  assume "split_nl s = pre @ l # post"
  then show "\<exists>ins post'. (ins = [] \<or> ins = [[]]) \<and>
             split_nl (preprocess_markdown s) = out_lines pre @ ins @
               (if is_fence l \<or> odd (fence_count pre) then l
                else concat (map (\<lambda>p. if is_span p then p else re_sub_generics p)
                               (re_split_spans l))) # post'"
    by (rule any_line)
qed


theorem generics_escaped_where_not_nested_witness:
  "(\<exists>ins post'. (ins = [] \<or> ins = [[]]) \<and>
      split_nl (preprocess_markdown ''a < b\<newline>- if n < len then Result<T, E> or Option<T>'')
        = [''a < b''] @ ins @ ''- if n < len then Result&lt;T, E&gt; or Option&lt;T&gt;'' # post')
   \<and> (\<exists>ins post'. (ins = [] \<or> ins = [[]]) \<and>
      split_nl (preprocess_markdown ''a < b\<newline>- if n < len then Result<T, E> or Option<T>'')
        = [] @ ins @ ''a < b'' # post')
   \<and> concat (re_split_spans ''`Vec<T>` is Vec<T>'') = ''`Vec<T>` is Vec<T>''
   \<and> (\<exists>ins post'. (ins = [] \<or> ins = [[]]) \<and>
      split_nl (preprocess_markdown ''`Vec<T>` is Vec<T>'')
        = [] @ ins @ ''`Vec<T>` is Vec&lt;T&gt;'' # post')"
proof -
  let ?s = "''a < b\<newline>- if n < len then Result<T, E> or Option<T>''"
  let ?x = "''a < b\<newline>- if n < len then Result<T, E> or Option''"
  let ?l = "''- if n < len then Result<T, E> or Option<T>''"
  let ?v = "''`Vec<T>` is Vec<T>''"
  note t = generics_escaped_where_not_nested[where s = ?s and x = ?x and u = "CHR ''T''" and g = "[]"
      and y = "[]" and pre = "[]" and l = "''a < b''" and post = "[?l]"]
  note t' = generics_escaped_where_not_nested[where s = ?v and pre = "[]" and l = ?v and post = "[]"]
  have h1: "bt \<notin> set ?s \<and> ?s = ?x @ lt # CHR ''T'' # [] @ gt # [] \<and> is_upper (CHR ''T'')
      \<and> gt \<notin> set [] \<and> nl \<notin> set [] \<and> closed_before (last (split_nl ?x))"
    by code_simp
  have h3: "\<forall>a v h b. ''a < b'' = a @ lt # v # h @ gt # b \<longrightarrow> \<not> is_upper v"
  proof (intro allI impI)
    fix a v h b
    assume "''a < b'' = a @ lt # v # h @ gt # b"
    then have "set ''a < b'' = set (a @ lt # v # h @ gt # b)" by (rule arg_cong)
    then have "gt \<in> set ''a < b''" by simp
    then show "\<not> is_upper v" by (simp add: gt_def)
  qed
  have h2: "bt \<notin> set ?s \<and> split_nl ?s = [] @ ''a < b'' # [?l]" by code_simp
  have h4: "split_nl ?v = [] @ ?v # []" by code_simp
  have e1: "out_lines (butlast (split_nl ?x)) = [''a < b'']" by code_simp
  have e2: "re_sub_generics (last (split_nl ?x)) @ ''&lt;'' @ CHR ''T'' # [] @ ''&gt;''
      @ re_sub_generics (hd (split_nl [])) = ''- if n < len then Result&lt;T, E&gt; or Option&lt;T&gt;''"
    by code_simp
  have e3: "out_lines [] = []" by code_simp
  have e4: "(if is_fence ?v \<or> odd (fence_count []) then ?v
      else concat (map (\<lambda>p. if is_span p then p else re_sub_generics p) (re_split_spans ?v)))
      = ''`Vec<T>` is Vec&lt;T&gt;''"
    by code_simp
  from t have t1: "bt \<notin> set ?s \<and> ?s = ?x @ lt # CHR ''T'' # [] @ gt # [] \<and> is_upper (CHR ''T'')
      \<and> gt \<notin> set [] \<and> nl \<notin> set [] \<and> closed_before (last (split_nl ?x)) \<longrightarrow>
      (\<exists>ins post'. (ins = [] \<or> ins = [[]]) \<and>
         split_nl (preprocess_markdown ?s) = out_lines (butlast (split_nl ?x)) @ ins @
           (re_sub_generics (last (split_nl ?x)) @ ''&lt;'' @ CHR ''T'' # [] @ ''&gt;''
              @ re_sub_generics (hd (split_nl []))) # post')"
    by (rule conjunct1)
  from t have t2: "bt \<notin> set ?s \<and> split_nl ?s = [] @ ''a < b'' # [?l]
        \<and> (\<forall>a v h b. ''a < b'' = a @ lt # v # h @ gt # b \<longrightarrow> \<not> is_upper v) \<longrightarrow>
      (\<exists>ins post'. (ins = [] \<or> ins = [[]]) \<and>
         split_nl (preprocess_markdown ?s) = out_lines [] @ ins @ ''a < b'' # post')"
    by (rule conjunct1[OF conjunct2])
  from t' have t3: "split_nl ?v = [] @ ?v # [] \<longrightarrow>
        concat (re_split_spans ?v) = ?v
        \<and> (\<exists>ins post'. (ins = [] \<or> ins = [[]]) \<and>
             split_nl (preprocess_markdown ?v) = out_lines [] @ ins @
               (if is_fence ?v \<or> odd (fence_count []) then ?v
                else concat (map (\<lambda>p. if is_span p then p else re_sub_generics p)
                               (re_split_spans ?v))) # post')"
    by (rule conjunct2[OF conjunct2])
  from t1 h1 have "\<exists>ins post'. (ins = [] \<or> ins = [[]]) \<and>
         split_nl (preprocess_markdown ?s) = out_lines (butlast (split_nl ?x)) @ ins @
           (re_sub_generics (last (split_nl ?x)) @ ''&lt;'' @ CHR ''T'' # [] @ ''&gt;''
              @ re_sub_generics (hd (split_nl []))) # post'"
    by (rule mp)
  then have 1: "\<exists>ins post'. (ins = [] \<or> ins = [[]]) \<and>
      split_nl (preprocess_markdown ?s)
        = [''a < b''] @ ins @ ''- if n < len then Result&lt;T, E&gt; or Option&lt;T&gt;'' # post'"
    unfolding e1 e2 .
  from h2 h3 have h23: "bt \<notin> set ?s \<and> split_nl ?s = [] @ ''a < b'' # [?l]
        \<and> (\<forall>a v h b. ''a < b'' = a @ lt # v # h @ gt # b \<longrightarrow> \<not> is_upper v)"
    by (intro conjI) (rule conjunct1[OF h2], rule conjunct2[OF h2], rule h3)
  from t2 h23 have "\<exists>ins post'. (ins = [] \<or> ins = [[]]) \<and>
         split_nl (preprocess_markdown ?s) = out_lines [] @ ins @ ''a < b'' # post'"
    by (rule mp)
  then have 2: "\<exists>ins post'. (ins = [] \<or> ins = [[]]) \<and>
         split_nl (preprocess_markdown ?s) = [] @ ins @ ''a < b'' # post'"
    unfolding e3 .
  from t3 h4 have c: "concat (re_split_spans ?v) = ?v
        \<and> (\<exists>ins post'. (ins = [] \<or> ins = [[]]) \<and>
             split_nl (preprocess_markdown ?v) = out_lines [] @ ins @
               (if is_fence ?v \<or> odd (fence_count []) then ?v
                else concat (map (\<lambda>p. if is_span p then p else re_sub_generics p)
                               (re_split_spans ?v))) # post')"
    by (rule mp)
  from c have 3: "concat (re_split_spans ?v) = ?v" by (rule conjunct1)
  from c have "\<exists>ins post'. (ins = [] \<or> ins = [[]]) \<and>
             split_nl (preprocess_markdown ?v) = out_lines [] @ ins @
               (if is_fence ?v \<or> odd (fence_count []) then ?v
                else concat (map (\<lambda>p. if is_span p then p else re_sub_generics p)
                               (re_split_spans ?v))) # post'"
    by (rule conjunct2)
  then have 4: "\<exists>ins post'. (ins = [] \<or> ins = [[]]) \<and>
      split_nl (preprocess_markdown ?v) = [] @ ins @ ''`Vec<T>` is Vec&lt;T&gt;'' # post'"
    unfolding e3 e4 .
  show ?thesis
    by (intro conjI) (rule 1, rule 2, rule 3, rule 4)
qed

text \<open>
  Claim C1 as stated fails where two such substrings overlap: \<open><T>\<close> is a substring of
  the required form, but it lies inside the match that starts at the first \<open><\<close>, so its
  own \<open><\<close> stays as it is.
\<close>

theorem overlapping_generic_counterexample:
  "contains ''Option<Box<T>>'' ''<T>''
   \<and> preprocess_markdown ''Option<Box<T>>'' = ''Option&lt;Box<T&gt;>''
   \<and> \<not> contains (preprocess_markdown ''Option<Box<T>>'') ''&lt;T&gt;''"
  by code_simp

section \<open>Collecting markdown files\<close>

lemma fnmatch_literal: "CHR ''*'' \<notin> set pat \<Longrightarrow> fnmatch n pat \<longleftrightarrow> n = pat"
  by (induction n pat rule: fnmatch.induct) auto

lemma fnmatch_star_literal:
  "CHR ''*'' \<notin> set lits \<Longrightarrow> fnmatch n (CHR ''*'' # lits) \<longleftrightarrow> (\<exists>pre. n = pre @ lits)"
proof (induction n)
  case Nil
  then show ?case by (cases lits) (auto simp: fnmatch_literal)
next
  case (Cons c cs)
  have "(\<exists>pre. c # cs = pre @ lits) \<longleftrightarrow> c # cs = lits \<or> (\<exists>pre. cs = pre @ lits)"
    by (auto simp: Cons_eq_append_conv)
  with Cons show ?case by (simp add: fnmatch_literal)
qed

lemma endswith_iff: "endswith s p \<longleftrightarrow> (\<exists>pre. s = pre @ p)"
proof -
  have "(\<exists>z. rev s = rev p @ z) \<longleftrightarrow> (\<exists>pre. s = pre @ p)"
  proof
    assume "\<exists>z. rev s = rev p @ z"
    then obtain z where "rev s = rev p @ z" ..
    then have "s = rev z @ p" by (metis rev_append rev_rev_ident)
    then show "\<exists>pre. s = pre @ p" ..
  next
    assume "\<exists>pre. s = pre @ p"
    then show "\<exists>z. rev s = rev p @ z" by auto
  qed
  then show ?thesis by (simp add: endswith_def startswith_iff)
qed

lemma fnmatch_md: "fnmatch n ''*.md'' \<longleftrightarrow> endswith n ''.md''"
  using fnmatch_star_literal[of "''.md''" n] by (simp add: endswith_iff)

lemma select_from_md:
  "q \<in> set (select_from fs [''*.md''] p) \<Longrightarrow> q \<noteq> [] \<and> endswith (last q) ''.md''"
  by (auto simp: fnmatch_md)

lemma select_from_rec_md:
  "q \<in> set (select_from fs [''**'', ''*.md''] p) \<Longrightarrow> q \<noteq> [] \<and> endswith (last q) ''.md''"
proof -
  assume a: "q \<in> set (select_from fs [''**'', ''*.md''] p)"
  then obtain n where n: "lookup fs p = Some n" by (cases "lookup fs p") auto
  with a obtain d where "q \<in> set (select_from fs [''*.md''] (p @ d))" by auto
  then show ?thesis by (rule select_from_md)
qed

lemma get_md_files_dir_member:
  assumes "\<not> is_file fs p" "q \<in> set (get_md_files fs p r)"
  shows "is_file fs q \<and> endswith (name q) ''.md''"
proof -
  let ?pat = "if r then [''**'', ''*.md''] else [''*.md'']"
  from assms have m: "q \<in> set (glob fs p ?pat)" "is_file fs q"
    by (auto simp: get_md_files_def Let_def)
  then have "q \<in> set (select_from fs ?pat p)" by (auto simp: glob_def split: if_splits)
  then have "q \<noteq> [] \<and> endswith (last q) ''.md''"
    using select_from_md select_from_rec_md by (cases r) auto
  with m(2) show ?thesis by (simp add: name_def)
qed

lemma lower_md:
  "lower ''.md'' = ''.md''" "lower ''.MD'' = ''.md''" "lower ''.Md'' = ''.md''" "lower ''.mD'' = ''.md''"
  by code_simp+

text \<open>
  What holds of each branch: a file is returned alone or not at all, by its lowercased
  suffix; the result for any other path is in the order of \<^const>\<open>sort\<close>, and is empty
  when the path is not a directory.
\<close>

lemma get_md_files_single_file:
  "is_file fs p \<Longrightarrow>
   get_md_files fs p r = (if lower (suffix p) = ''.md'' then [p] else [])"
  by (simp add: get_md_files_def)

lemma get_md_files_sorted: "\<not> is_file fs p \<Longrightarrow> sorted (get_md_files fs p r)"
  by (simp add: get_md_files_def Let_def sorted_filter[where f = "\<lambda>x. x", simplified])

lemma get_md_files_not_dir:
  "\<not> is_file fs p \<Longrightarrow> \<not> is_dir fs p \<Longrightarrow> get_md_files fs p r = []"
  by (simp add: get_md_files_def glob_def Let_def)

text \<open>
  Claim C10. A path that names a file is returned whatever the case of the letters of
  its suffix \<open>.md\<close>; from a directory, only files whose name ends in the lowercase
  \<open>.md\<close> are returned, so a name ending in \<open>.MD\<close> is not.
\<close>

theorem extension_case_asymmetry:
  "(is_file fs p \<and> suffix p \<in> {''.md'', ''.MD'', ''.Md'', ''.mD''} \<longrightarrow> get_md_files fs p r = [p])
   \<and> (\<not> is_file fs p \<and> q \<in> set (get_md_files fs p r) \<longrightarrow> endswith (name q) ''.md'')"
  using get_md_files_dir_member[of fs p q r] lower_md
  by (auto simp: get_md_files_def)

theorem extension_case_asymmetry_witness:
  "get_md_files docs_fs [''docs'', ''README.MD''] True = [[''docs'', ''README.MD'']]
   \<and> endswith ''intro.md'' ''.md''
   \<and> [''docs'', ''README.MD''] \<notin> set (get_md_files docs_fs [''docs''] True)"
proof -
  have f: "is_file docs_fs [''docs'', ''README.MD''] \<and> suffix [''docs'', ''README.MD''] = ''.MD''"
    by code_simp
  have d: "\<not> is_file docs_fs [''docs'']
      \<and> [''docs'', ''intro.md''] \<in> set (get_md_files docs_fs [''docs''] True)"
    by code_simp
  have n: "name [''docs'', ''intro.md''] = ''intro.md''" "name [''docs'', ''README.MD''] = ''README.MD''"
    by code_simp+
  have u: "\<not> endswith ''README.MD'' ''.md''" by code_simp
  from f have 1: "get_md_files docs_fs [''docs'', ''README.MD''] True = [[''docs'', ''README.MD'']]"
    using extension_case_asymmetry[where fs = docs_fs and p = "[''docs'', ''README.MD'']" and r = True]
    by simp
  from d have 2: "endswith ''intro.md'' ''.md''"
    using extension_case_asymmetry[where fs = docs_fs and p = "[''docs'']"
        and q = "[''docs'', ''intro.md'']" and r = True] n
    by simp
  from d u have 3: "[''docs'', ''README.MD''] \<notin> set (get_md_files docs_fs [''docs''] True)"
    using extension_case_asymmetry[where fs = docs_fs and p = "[''docs'']"
        and q = "[''docs'', ''README.MD'']" and r = True] n
    by auto
  from 1 2 3 show ?thesis by blast
qed

text \<open>
  Claim C8. The function at the failing input: the file \<open>README.MD\<close> is returned when it
  is named directly, and is missing from the result for the directory that holds it,
  recursive or not.
\<close>

theorem uppercase_extension_skipped_in_directory:
  "get_md_files docs_fs [''docs'', ''README.MD''] True = [[''docs'', ''README.MD'']]
   \<and> get_md_files docs_fs [''docs''] True
       = [[''docs'', ''ch'', ''x.md''], [''docs'', ''ch-1.md''], [''docs'', ''intro.md'']]
   \<and> get_md_files docs_fs [''docs''] False = [[''docs'', ''ch-1.md''], [''docs'', ''intro.md'']]"
  by code_simp

text \<open>
  The result is in the order of the component lists, which is not the order of the path
  strings: \<open>ch/x.md\<close> comes before \<open>ch-1.md\<close>.
\<close>

lemma result_not_sorted_as_strings:
  "map path_str (get_md_files docs_fs [''docs''] True)
     = [''docs/ch/x.md'', ''docs/ch-1.md'', ''docs/intro.md'']
   \<and> sort [''docs/ch/x.md'', ''docs/ch-1.md'', ''docs/intro.md'']
     = [''docs/ch-1.md'', ''docs/ch/x.md'', ''docs/intro.md'']"
  by code_simp

section \<open>The steps of \<open>generate_epub\<close> and \<open>generate_pdf\<close>\<close>







lemma file_on_path_iff: "file_on_path fs p \<longleftrightarrow> (\<exists>k\<le>length p. is_file fs (take k p))"
proof (induction fs p rule: file_on_path.induct)
  case (1 p)
  have "is_file File (take 0 p)" by (simp add: is_file_def)
  then show ?case by auto
next
  case (2 es)
  then show ?case by (simp add: is_file_def)
next
  case (3 es x xs)
  show ?case
  proof (cases "map_of es x")
    case None
    have "\<not> is_file (Dir es) (take k (x # xs))" for k
      using None by (cases k) (auto simp: is_file_def)
    then show ?thesis using None by auto
  next
    case (Some n)
    have a: "is_file (Dir es) (take (Suc k) (x # xs)) = is_file n (take k xs)" for k
      using Some by (simp add: is_file_def)
    have b: "\<not> is_file (Dir es) (take 0 (x # xs))" by (simp add: is_file_def)
    have "(\<exists>k\<le>length (x # xs). is_file (Dir es) (take k (x # xs)))
        \<longleftrightarrow> (\<exists>k\<le>length xs. is_file n (take k xs))"
    proof
      assume "\<exists>k\<le>length (x # xs). is_file (Dir es) (take k (x # xs))"
      then obtain k where k: "k \<le> length (x # xs)" "is_file (Dir es) (take k (x # xs))" by blast
      then obtain j where "k = Suc j" using b by (cases k) auto
      then show "\<exists>k\<le>length xs. is_file n (take k xs)" using k a by auto
    next
      assume "\<exists>k\<le>length xs. is_file n (take k xs)"
      then obtain k where "k \<le> length xs" "is_file n (take k xs)" by blast
      then have "Suc k \<le> length (x # xs) \<and> is_file (Dir es) (take (Suc k) (x # xs))"
        using a by simp
      then show "\<exists>k\<le>length (x # xs). is_file (Dir es) (take k (x # xs))" by blast
    qed
    then show ?thesis using 3[OF Some] Some by simp
  qed
qed













end
